theory Spec2Isabelle
  imports Main "HOL-Library.Word"
begin

section \<open>Python values, errors and the document tree\<close>

text \<open>
  The module \<^verbatim>\<open>web_monitoring/differs.py\<close> is Python 3 (it uses f-strings). Its functions
  raise three kinds of exception on the paths modelled here; a function that can raise
  returns \<open>error + 'a\<close>, with \<open>Inl\<close> for the exception.
\<close>

datatype error = TypeError | KeyError | AttributeError

text \<open>A response body is a \<^verbatim>\<open>bytes\<close> object: a sequence of octets.\<close>

type_synonym bytes = "8 word list"

text \<open>
  The values the diff strategies accept: \<^verbatim>\<open>str\<close>, \<^verbatim>\<open>bytes\<close>, or anything else
  (\<^verbatim>\<open>None\<close>, a number, ...), which only ever reaches the \<^verbatim>\<open>else\<close> of an
  \<^verbatim>\<open>isinstance\<close> chain.
\<close>

datatype pyval = PStr string | PBytes bytes | POther

text \<open>
  A Beautiful Soup tree. A \<^verbatim>\<open>Tag\<close> has a name, a dictionary of attributes (kept in
  insertion order) and a list of children; the strings of the tree are
  \<^verbatim>\<open>NavigableString\<close>s, of which \<^verbatim>\<open>Comment\<close> is the one subclass the module tells apart.
  A soup (the \<^verbatim>\<open>BeautifulSoup\<close> object, whose name is \<^verbatim>\<open>[document]\<close>) is given by the
  list of its children.
\<close>

datatype node =
    Element string "(string \<times> string) list" "node list"
  | Text string
  | Comment string

type_synonym soup = "node list"

text \<open>
  The collaborators the module imports and calls, none of which is code of this
  repository: the parser (\<^verbatim>\<open>BeautifulSoup(markup, 'lxml')\<close>), the two serialisers of the
  tree (\<^verbatim>\<open>str(tag)\<close> and \<^verbatim>\<open>soup.prettify(formatter=None)\<close>), the structural differ
  (\<^verbatim>\<open>lxml.html.diff.htmldiff\<close>) and the two entry points of diff-match-patch, whose
  changes are pairs of a tag and a segment. They are parameters of the model.
\<close>

record externals =
  parse_html :: "string \<Rightarrow> soup"
  markup :: "node \<Rightarrow> string"
  prettify :: "soup \<Rightarrow> string"
  htmldiff :: "string \<Rightarrow> string \<Rightarrow> string"
  dmp_diff :: "string \<Rightarrow> string \<Rightarrow> int \<Rightarrow> (string \<times> string) list"
  dmp_diff_bytes :: "bytes \<Rightarrow> bytes \<Rightarrow> int \<Rightarrow> (string \<times> bytes) list"

section \<open>Length and identity of two bodies\<close>

text \<open>\<^verbatim>\<open>return len(b_body) - len(a_body)\<close>, on Python's unbounded integers.\<close>

definition compare_length :: "bytes \<Rightarrow> bytes \<Rightarrow> int" where
  "compare_length a_body b_body = int (length b_body) - int (length a_body)"

text \<open>\<^verbatim>\<open>return a_body == b_body\<close>.\<close>

definition identical_bytes :: "bytes \<Rightarrow> bytes \<Rightarrow> bool" where
  "identical_bytes a_body b_body = (a_body = b_body)"

section \<open>The character diff strategies\<close>

text \<open>
  \<^verbatim>\<open>diff_codes = {'=': 0, '-': -1, '+': 1}\<close>: from the tags of diff-match-patch to the
  codes the module returns.
\<close>

definition diff_codes :: "string \<rightharpoonup> int" where
  "diff_codes = [''='' \<mapsto> 0, ''-'' \<mapsto> - 1, ''+'' \<mapsto> 1]"

text \<open>
  \<^verbatim>\<open>[(diff_codes[change[0]], change[1]) for change in changes]\<close>: indexing the dictionary
  with a tag it does not hold raises \<^verbatim>\<open>KeyError\<close>, and the comprehension stops there.
\<close>

fun translate_changes :: "(string \<times> pyval) list \<Rightarrow> error + (int \<times> pyval) list" where
  "translate_changes [] = Inr []"
| "translate_changes (change # changes) =
     (case diff_codes (fst change) of
        None \<Rightarrow> Inl KeyError
      | Some code \<Rightarrow>
          (case translate_changes changes of
             Inl e \<Rightarrow> Inl e
           | Inr result \<Rightarrow> Inr ((code, snd change) # result)))"

text \<open>
  The first half of \<^verbatim>\<open>compute_dmp_diff\<close>: the \<^verbatim>\<open>isinstance\<close> chain that picks the
  engine's entry point, or raises \<^verbatim>\<open>TypeError\<close>. The segments of \<^verbatim>\<open>diff\<close> are
  \<^verbatim>\<open>str\<close>, those of \<^verbatim>\<open>diff_bytes\<close> are \<^verbatim>\<open>bytes\<close>.
\<close>

fun engine_changes :: "externals \<Rightarrow> pyval \<Rightarrow> pyval \<Rightarrow> int \<Rightarrow> error + (string \<times> pyval) list" where
  "engine_changes env (PStr a_text) (PStr b_text) timelimit =
     Inr (map (\<lambda>change. (fst change, PStr (snd change))) (dmp_diff env a_text b_text timelimit))"
| "engine_changes env (PBytes a_text) (PBytes b_text) timelimit =
     Inr (map (\<lambda>change. (fst change, PBytes (snd change))) (dmp_diff_bytes env a_text b_text timelimit))"
| "engine_changes env a_text b_text timelimit = Inl TypeError"

definition compute_dmp_diff :: "externals \<Rightarrow> pyval \<Rightarrow> pyval \<Rightarrow> int \<Rightarrow> error + (int \<times> pyval) list" where
  "compute_dmp_diff env a_text b_text timelimit =
     (case engine_changes env a_text b_text timelimit of
        Inl e \<Rightarrow> Inl e
      | Inr changes \<Rightarrow> translate_changes changes)"

text \<open>\<^verbatim>\<open>TIMELIMIT = 2; return compute_dmp_diff(a_text, b_text, timelimit=TIMELIMIT)\<close>.\<close>

definition html_source_diff :: "externals \<Rightarrow> pyval \<Rightarrow> pyval \<Rightarrow> error + (int \<times> pyval) list" where
  "html_source_diff env a_text b_text = compute_dmp_diff env a_text b_text 2"

section \<open>Visible text\<close>

text \<open>
  The two list comprehensions that call \<^verbatim>\<open>extract()\<close> on every \<^verbatim>\<open>Comment\<close> found by
  \<^verbatim>\<open>find_all(string=lambda text: isinstance(text, Comment))\<close>: every comment, at any
  depth, leaves the tree.
\<close>

fun strip_comments :: "soup \<Rightarrow> soup" where
  "strip_comments [] = []"
| "strip_comments (Comment c # ns) = strip_comments ns"
| "strip_comments (Text t # ns) = Text t # strip_comments ns"
| "strip_comments (Element n a cs # ns) = Element n a (strip_comments cs) # strip_comments ns"

text \<open>
  \<^verbatim>\<open>find_all(text=True)\<close>: every string of the tree in document order. The only thing
  the module reads of a string besides its text is \<^verbatim>\<open>element.parent.name\<close>, so each
  string comes paired with the name of its parent (the first argument: the name of the
  tag whose children are walked).
\<close>

fun all_strings :: "string \<Rightarrow> node list \<Rightarrow> (string \<times> string) list" where
  "all_strings p [] = []"
| "all_strings p (Text t # ns) = (p, t) # all_strings p ns"
| "all_strings p (Comment c # ns) = (p, c) # all_strings p ns"
| "all_strings p (Element n a cs # ns) = all_strings n cs @ all_strings p ns"

definition get_text :: "externals \<Rightarrow> string \<Rightarrow> (string \<times> string) list" where
  "get_text env html = all_strings ''[document]'' (strip_comments (parse_html env html))"

definition INVISIBLE_TAGS :: "string list" where
  "INVISIBLE_TAGS = [''style'', ''script'', ''[document]'', ''head'', ''title'']"

text \<open>
  \<^verbatim>\<open>str(element.encode('utf-8'))\<close>: in Python 3 the \<^verbatim>\<open>str\<close> of a \<^verbatim>\<open>bytes\<close> object is its
  \<^verbatim>\<open>repr\<close>, the letter b, a quote, the escaped octets and the quote again. Characters
  are the code points below 256 here, as \<^typ>\<open>char\<close> has them.
\<close>

definition utf8_encode :: "string \<Rightarrow> string" where
  "utf8_encode s = concat (map (\<lambda>c.
     if (of_char c :: nat) < 128 then [c]
     else [char_of (192 + (of_char c :: nat) div 64), char_of (128 + (of_char c :: nat) mod 64)]) s)"

definition hex_digit :: "nat \<Rightarrow> char" where
  "hex_digit d = ''0123456789abcdef'' ! d"

definition escape_byte :: "char \<Rightarrow> char \<Rightarrow> string" where
  "escape_byte q c =
     (if c = q \<or> c = CHR 0x5C then [CHR 0x5C, c]
      else if c = CHR 0x09 then [CHR 0x5C, CHR ''t'']
      else if c = CHR 0x0A then [CHR 0x5C, CHR ''n'']
      else if c = CHR 0x0D then [CHR 0x5C, CHR ''r'']
      else if (of_char c :: nat) < 32 \<or> 127 \<le> (of_char c :: nat)
        then [CHR 0x5C, CHR ''x'', hex_digit ((of_char c :: nat) div 16), hex_digit ((of_char c :: nat) mod 16)]
      else [c])"

definition bytes_repr :: "string \<Rightarrow> string" where
  "bytes_repr bs =
     (let q = (if CHR 0x27 \<in> set bs \<and> CHR 0x22 \<notin> set bs then CHR 0x22 else CHR 0x27)
      in CHR ''b'' # q # concat (map (escape_byte q) bs) @ [q])"

text \<open>
  \<^verbatim>\<open>re.match('<!--.*-->', s)\<close>: the pattern is tried at the start of \<open>s\<close> only, and the
  dot matches any character but a newline.
\<close>

fun comment_tail :: "string \<Rightarrow> bool" where
  "comment_tail [] = False"
| "comment_tail (c # cs) =
     (take 3 (c # cs) = ''-->'' \<or> (c \<noteq> CHR 0x0A \<and> comment_tail cs))"

definition re_match_comment :: "string \<Rightarrow> bool" where
  "re_match_comment s = (take 4 s = ''<!--'' \<and> comment_tail (drop 4 s))"

definition is_visible :: "string \<times> string \<Rightarrow> bool" where
  "is_visible element =
     (if fst element \<in> set INVISIBLE_TAGS then False
      else if re_match_comment (bytes_repr (utf8_encode (snd element))) then False
      else True)"

text \<open>
  Whitespace as \<^verbatim>\<open>str.isspace\<close>, \<^verbatim>\<open>str.strip\<close> and the class \<^verbatim>\<open>\s\<close> of a \<^verbatim>\<open>str\<close>
  pattern have it, among the code points below 256: tab to carriage return, the four
  separators 0x1C to 0x1F, the space, NEL and the no-break space.
\<close>

definition py_isspace :: "char \<Rightarrow> bool" where
  "py_isspace c =
     ((9 \<le> (of_char c :: nat) \<and> (of_char c :: nat) \<le> 13)
      \<or> (28 \<le> (of_char c :: nat) \<and> (of_char c :: nat) \<le> 32)
      \<or> (of_char c :: nat) = 133 \<or> (of_char c :: nat) = 160)"

text \<open>The class \<^verbatim>\<open>[^\S\n]\<close>: whitespace other than the newline.\<close>

definition hspace :: "char \<Rightarrow> bool" where
  "hspace c = (py_isspace c \<and> c \<noteq> CHR 0x0A)"

text \<open>
  \<^verbatim>\<open>REPEATED_BLANK_LINES = re.compile(r'([^\S\n]*\n\s*){2,}')\<close> tried at the head of a
  string; the result is the text after the match. The group is horizontal whitespace, a
  newline, then any whitespace. The first group can only start with all the horizontal
  whitespace at the head followed by a newline; the greedy \<^verbatim>\<open>\s*\<close> then runs to the
  end of the whitespace and backtracks to leave the last newline of it (and what
  follows) to a second group, so a match needs a second newline in that whitespace and
  always ends where the whitespace ends.
\<close>

definition blank_lines_at :: "string \<Rightarrow> string option" where
  "blank_lines_at s =
     (case dropWhile hspace s of
        [] \<Rightarrow> None
      | c # r \<Rightarrow>
          if c = CHR 0x0A \<and> CHR 0x0A \<in> set (takeWhile py_isspace r)
          then Some (dropWhile py_isspace r) else None)"

lemma blank_lines_at_shorter: "blank_lines_at s = Some r \<Longrightarrow> length r < length s"
proof -
  assume a: "blank_lines_at s = Some r"
  obtain c r0 where d: "dropWhile hspace s = c # r0" and r: "r = dropWhile py_isspace r0"
    using a by (auto simp: blank_lines_at_def split: list.splits if_splits)
  have "length r \<le> length r0"
    unfolding r by (rule length_dropWhile_le)
  moreover have "length (c # r0) \<le> length s"
    unfolding d [symmetric] by (rule length_dropWhile_le)
  ultimately show ?thesis by simp
qed

text \<open>
  \<^verbatim>\<open>REPEATED_BLANK_LINES.sub('\n\n', text)\<close>: the leftmost match is replaced, and the
  scan goes on after it; where nothing matches, the character is kept.
\<close>

function sub_blank_lines :: "string \<Rightarrow> string" where
  "sub_blank_lines [] = []"
| "sub_blank_lines (c # cs) =
     (case blank_lines_at (c # cs) of
        Some r \<Rightarrow> [CHR 0x0A, CHR 0x0A] @ sub_blank_lines r
      | None \<Rightarrow> c # sub_blank_lines cs)"
  by pat_completeness auto
termination
  by (relation "measure length") (auto dest: blank_lines_at_shorter)

text \<open>\<^verbatim>\<open>sep.join(parts)\<close> and \<^verbatim>\<open>text.strip()\<close>.\<close>

fun join :: "string \<Rightarrow> string list \<Rightarrow> string" where
  "join sep [] = []"
| "join sep [x] = x"
| "join sep (x # y # ys) = x @ sep @ join sep (y # ys)"

definition py_strip :: "string \<Rightarrow> string" where
  "py_strip s = rev (dropWhile py_isspace (rev (dropWhile py_isspace s)))"

definition get_visible_text :: "externals \<Rightarrow> string \<Rightarrow> string" where
  "get_visible_text env html =
     py_strip (sub_blank_lines (join '' '' (map snd (filter is_visible (get_text env html)))))"


section \<open>The regions of a document\<close>

text \<open>
  \<^verbatim>\<open>soup.html\<close>, \<^verbatim>\<open>soup.head\<close>: attribute access on a soup is \<^verbatim>\<open>soup.find(name)\<close>, the
  first tag of that name in document order (a tag comes before its descendants, and
  these before its following siblings), or \<^verbatim>\<open>None\<close>.
\<close>

fun find_tag :: "string \<Rightarrow> node list \<Rightarrow> node option" where
  "find_tag nm [] = None"
| "find_tag nm (Element n a cs # ns) =
     (if n = nm then Some (Element n a cs)
      else (case find_tag nm cs of
              Some e \<Rightarrow> Some e
            | None \<Rightarrow> find_tag nm ns))"
| "find_tag nm (Text t # ns) = find_tag nm ns"
| "find_tag nm (Comment c # ns) = find_tag nm ns"

text \<open>\<^verbatim>\<open>hasattr(node, 'name') and node.name == nm\<close>: true of a tag of that name only.\<close>

fun is_named :: "string \<Rightarrow> node \<Rightarrow> bool" where
  "is_named nm (Element n a cs) = (n = nm)"
| "is_named nm (Text t) = False"
| "is_named nm (Comment c) = False"

text \<open>
  \<^verbatim>\<open>str(node)\<close>: the markup of a tag, as the library serialises it; a string is its own
  text.
\<close>

fun node_str :: "externals \<Rightarrow> node \<Rightarrow> string" where
  "node_str env (Element n a cs) = markup env (Element n a cs)"
| "node_str env (Text t) = t"
| "node_str env (Comment c) = c"

text \<open>
  Python's truth value of a node, for \<^verbatim>\<open>not head\<close>, \<^verbatim>\<open>not old\<close> and
  \<^verbatim>\<open>if replacement\<close>: \<^verbatim>\<open>Tag.__bool__\<close> returns true whatever the tag holds, a string is
  true unless it is empty; \<^verbatim>\<open>None\<close> is false.
\<close>

fun truthy :: "node \<Rightarrow> bool" where
  "truthy (Element n a cs) = True"
| "truthy (Text t) = (t \<noteq> [])"
| "truthy (Comment c) = (c \<noteq> [])"

fun truthy_opt :: "node option \<Rightarrow> bool" where
  "truthy_opt None = False"
| "truthy_opt (Some n) = truthy n"

record regions =
  pre_head :: string
  head :: "node option"
  pre_body :: string
  body :: "node option"
  post_body :: string

text \<open>
  The loop of \<^verbatim>\<open>_find_meaningful_nodes\<close> over \<^verbatim>\<open>soup.html.children\<close>. The state is the
  five local variables, in the order \<^verbatim>\<open>pre_head\<close>, \<^verbatim>\<open>head\<close>, \<^verbatim>\<open>pre_body\<close>, \<^verbatim>\<open>body\<close>,
  \<^verbatim>\<open>post_body\<close>.
\<close>

fun classify ::
  "externals \<Rightarrow> node list \<Rightarrow>
   string list \<times> node option \<times> string list \<times> node option \<times> string list \<Rightarrow>
   string list \<times> node option \<times> string list \<times> node option \<times> string list" where
  "classify env [] st = st"
| "classify env (node # rest) (ph, h, pb, b, po) =
     classify env rest
       (if \<not> truthy_opt h \<and> \<not> truthy_opt b then
          (if is_named ''head'' node then (ph, Some node, pb, b, po)
           else if is_named ''body'' node then (ph, h, pb, Some node, po)
           else (ph @ [node_str env node], h, pb, b, po))
        else if \<not> truthy_opt b then
          (if is_named ''body'' node then (ph, h, pb, Some node, po)
           else (ph, h, pb @ [node_str env node], b, po))
        else (ph, h, pb, b, po @ [node_str env node]))"

fun regions_of ::
  "string list \<times> node option \<times> string list \<times> node option \<times> string list \<Rightarrow> regions" where
  "regions_of (ph, h, pb, b, po) =
     \<lparr> pre_head = join [CHR 0x0A] ph, head = h,
       pre_body = join [CHR 0x0A] pb, body = b,
       post_body = join [CHR 0x0A] po \<rparr>"

text \<open>
  \<^verbatim>\<open>_find_meaningful_nodes(soup)\<close>. Where the soup has no html tag, \<^verbatim>\<open>soup.html\<close> is
  \<^verbatim>\<open>None\<close> and \<^verbatim>\<open>None.children\<close> raises \<^verbatim>\<open>AttributeError\<close>.
\<close>

fun find_meaningful_nodes :: "externals \<Rightarrow> soup \<Rightarrow> error + regions" where
  "find_meaningful_nodes env doc =
     (case find_tag ''html'' doc of
        None \<Rightarrow> Inl AttributeError
      | Some (Element n a cs) \<Rightarrow> Inr (regions_of (classify env cs ([], None, [], None, [])))
      | Some other \<Rightarrow> Inl AttributeError)"

section \<open>Shielding script and style\<close>

definition undiffable :: "string \<Rightarrow> bool" where
  "undiffable n = (n = ''script'' \<or> n = ''style'')"

definition repl_attr :: string where
  "repl_attr = ''wm-diff-replacement''"

text \<open>The decimal digits of a natural number, as an f-string formats the index.\<close>

function str_nat :: "nat \<Rightarrow> string" where
  "str_nat n =
     (if n < 10 then [''0123456789'' ! n]
      else str_nat (n div 10) @ [''0123456789'' ! (n mod 10)])"
  by pat_completeness auto
termination
  by (relation "measure id") auto

declare str_nat.simps [simp del]

text \<open>\<^verbatim>\<open>replacement_id = f'{prefix}-{index}'\<close>.\<close>

definition replacement_id :: "string \<Rightarrow> nat \<Rightarrow> string" where
  "replacement_id prefix index = prefix @ ''-'' @ str_nat index"

text \<open>
  The replacement: a new tag of the element's name whose one attribute holds the
  identifier and whose one child is the string \<^verbatim>\<open>f'$[{replacement_id}]$'\<close>.
\<close>

definition placeholder :: "string \<Rightarrow> string \<Rightarrow> node" where
  "placeholder n rid = Element n [(repl_attr, rid)] [Text (''$['' @ rid @ '']$'')]"

text \<open>
  The loop of \<^verbatim>\<open>_remove_undiffable_content\<close>. \<^verbatim>\<open>find_all(['script', 'style'])\<close> lists the
  script and style tags in document order before the loop starts, so the tag numbered
  \<open>index\<close> is followed by the script and style tags inside it, then by those after it.
  Each is replaced where it stands by its placeholder. A listed tag that lies inside an
  earlier listed tag is, at its turn, no longer in the soup: it is replaced inside that
  earlier tag, which the dictionary holds by reference. So the element stored for a tag
  is the tag with the listed tags below it replaced. The function walks the children
  in document order with the next index, and returns the new children, the dictionary's
  entries in the order of the assignments, and the index after the last tag.
\<close>

fun shield_nodes :: "string \<Rightarrow> nat \<Rightarrow> node list \<Rightarrow> node list \<times> (string \<times> node) list \<times> nat" where
  "shield_nodes prefix index [] = ([], [], index)"
| "shield_nodes prefix index (Element n a cs # ns) =
     (if undiffable n then
        (case shield_nodes prefix (Suc index) cs of (cs', inner, j) \<Rightarrow>
         (case shield_nodes prefix j ns of (ns', later, k) \<Rightarrow>
           (placeholder n (replacement_id prefix index) # ns',
            (replacement_id prefix index, Element n a cs') # inner @ later, k)))
      else
        (case shield_nodes prefix index cs of (cs', inner, j) \<Rightarrow>
         (case shield_nodes prefix j ns of (ns', later, k) \<Rightarrow>
           (Element n a cs' # ns', inner @ later, k))))"
| "shield_nodes prefix index (Text t # ns) =
     (case shield_nodes prefix index ns of (ns', later, k) \<Rightarrow> (Text t # ns', later, k))"
| "shield_nodes prefix index (Comment c # ns) =
     (case shield_nodes prefix index ns of (ns', later, k) \<Rightarrow> (Comment c # ns', later, k))"

text \<open>
  A dictionary built by assignments in the order of the list: a later assignment to a
  key replaces an earlier one.
\<close>

definition dict_of :: "(string \<times> node) list \<Rightarrow> (string \<rightharpoonup> node)" where
  "dict_of entries = map_of (rev entries)"

text \<open>\<^verbatim>\<open>_remove_undiffable_content(soup, prefix)\<close>: the soup and the dictionary.\<close>

definition remove_undiffable_content :: "soup \<Rightarrow> string \<Rightarrow> soup \<times> (string \<rightharpoonup> node)" where
  "remove_undiffable_content doc prefix =
     (case shield_nodes prefix 0 doc of (doc', entries, k) \<Rightarrow> (doc', dict_of entries))"

text \<open>
  \<^verbatim>\<open>soup.select('[wm-diff-replacement]')\<close>: the tags that carry the attribute, in document
  order, listed before the loop starts; the loop reads of each its attribute's value.
\<close>

fun select_ids :: "node list \<Rightarrow> string list" where
  "select_ids [] = []"
| "select_ids (Element n a cs # ns) =
     (case map_of a repl_attr of
        Some rid \<Rightarrow> rid # select_ids cs @ select_ids ns
      | None \<Rightarrow> select_ids cs @ select_ids ns)"
| "select_ids (Text t # ns) = select_ids ns"
| "select_ids (Comment c # ns) = select_ids ns"

text \<open>
  The loop of \<^verbatim>\<open>_add_undiffable_content\<close>, on a dictionary whose values are elements
  outside the soup, one object for each key (as the dictionaries of
  \<^verbatim>\<open>_remove_undiffable_content\<close> are). For each selected tag, in document order:

  \<^item> \<^verbatim>\<open>replacements[element['wm-diff-replacement']]\<close> raises \<^verbatim>\<open>KeyError\<close> when the
    dictionary does not hold the identifier;
  \<^item> a replacement that is true is put where the tag stands
    (\<^verbatim>\<open>element.replace_with(replacement)\<close>). The tags selected below the replaced tag
    are still looked up at their turn, but they have left the soup with it.
    \<^verbatim>\<open>replace_with\<close> moves the one object it is given: when a tag selected later
    carries the same identifier, the replacement is taken out again and the place of
    the earlier tag stays empty;
  \<^item> a replacement that is false (an empty string) leaves the tag where it is.

  The argument \<open>after\<close> lists the identifiers of the tags selected after the nodes
  being walked.
\<close>

fun restore_nodes :: "(string \<rightharpoonup> node) \<Rightarrow> string list \<Rightarrow> node list \<Rightarrow> error + node list" where
  "restore_nodes replacements after [] = Inr []"
| "restore_nodes replacements after (Element n a cs # ns) =
     (case map_of a repl_attr of
        None \<Rightarrow>
          (case restore_nodes replacements (select_ids ns @ after) cs of
             Inl e \<Rightarrow> Inl e
           | Inr cs' \<Rightarrow>
               (case restore_nodes replacements after ns of
                  Inl e \<Rightarrow> Inl e
                | Inr ns' \<Rightarrow> Inr (Element n a cs' # ns')))
      | Some rid \<Rightarrow>
          (case replacements rid of
             None \<Rightarrow> Inl KeyError
           | Some replacement \<Rightarrow>
               if truthy replacement then
                 (if \<exists>rid' \<in> set (select_ids cs). replacements rid' = None then Inl KeyError
                  else
                    (case restore_nodes replacements after ns of
                       Inl e \<Rightarrow> Inl e
                     | Inr ns' \<Rightarrow>
                         Inr ((if rid \<in> set (select_ids cs @ select_ids ns @ after)
                               then [] else [replacement]) @ ns')))
               else
                 (case restore_nodes replacements (select_ids ns @ after) cs of
                    Inl e \<Rightarrow> Inl e
                  | Inr cs' \<Rightarrow>
                      (case restore_nodes replacements after ns of
                         Inl e \<Rightarrow> Inl e
                       | Inr ns' \<Rightarrow> Inr (Element n a cs' # ns')))))"
| "restore_nodes replacements after (Text t # ns) =
     (case restore_nodes replacements after ns of
        Inl e \<Rightarrow> Inl e
      | Inr ns' \<Rightarrow> Inr (Text t # ns'))"
| "restore_nodes replacements after (Comment c # ns) =
     (case restore_nodes replacements after ns of
        Inl e \<Rightarrow> Inl e
      | Inr ns' \<Rightarrow> Inr (Comment c # ns'))"

text \<open>\<^verbatim>\<open>_add_undiffable_content(soup, replacements)\<close>.\<close>

definition add_undiffable_content :: "soup \<Rightarrow> (string \<rightharpoonup> node) \<Rightarrow> error + soup" where
  "add_undiffable_content doc replacements = restore_nodes replacements [] doc"

section \<open>Diffing a pair of elements\<close>

text \<open>
  What \<^verbatim>\<open>_diff_elements\<close> returns and \<^verbatim>\<open>html_diff_render\<close> appends to the html tag: a
  \<^verbatim>\<open>str\<close> or a tag.
\<close>

datatype content = Str string | Tag node

text \<open>
  \<^verbatim>\<open>_diff_elements(old, new)\<close>: the empty string when \<^verbatim>\<open>not old or not new\<close>; otherwise
  \<^verbatim>\<open>copy.copy(new)\<close>, \<^verbatim>\<open>clear()\<close> and \<^verbatim>\<open>append(htmldiff(str(old), str(new)))\<close>, which
  leaves a tag of the name and attributes of \<^verbatim>\<open>new\<close> whose one child is the string the
  differ returned. A string has no \<^verbatim>\<open>clear\<close>: \<^verbatim>\<open>AttributeError\<close>.
\<close>

fun diff_elements :: "externals \<Rightarrow> node option \<Rightarrow> node option \<Rightarrow> error + content" where
  "diff_elements env None new = Inr (Str [])"
| "diff_elements env (Some old) None = Inr (Str [])"
| "diff_elements env (Some old) (Some new) =
     (if \<not> truthy old \<or> \<not> truthy new then Inr (Str [])
      else (case new of
              Element n a cs \<Rightarrow>
                Inr (Tag (Element n a [Text (htmldiff env (node_str env old) (node_str env new))]))
            | Text t \<Rightarrow> Inl AttributeError
            | Comment c \<Rightarrow> Inl AttributeError))"

section \<open>The rendered diff\<close>

text \<open>
  A change made in place to the tag that \<^verbatim>\<open>soup.find(nm)\<close> returns: the function is
  applied to the first tag of that name in document order, and the rest of the soup
  stays as it is.
\<close>

fun upd_tag :: "string \<Rightarrow> (node \<Rightarrow> node) \<Rightarrow> node list \<Rightarrow> node list" where
  "upd_tag nm f [] = []"
| "upd_tag nm f (Element n a cs # ns) =
     (if n = nm then f (Element n a cs) # ns
      else if find_tag nm cs \<noteq> None then Element n a (upd_tag nm f cs) # ns
      else Element n a cs # upd_tag nm f ns)"
| "upd_tag nm f (Text t # ns) = Text t # upd_tag nm f ns"
| "upd_tag nm f (Comment c # ns) = Comment c # upd_tag nm f ns"

text \<open>
  \<^verbatim>\<open>tag.clear()\<close> followed by \<^verbatim>\<open>tag.append(x)\<close> for each \<open>x\<close> of a list;
  \<^verbatim>\<open>tag.insert(0, child)\<close>; \<^verbatim>\<open>tag.append(child)\<close>. Appending a \<^verbatim>\<open>str\<close> appends a string
  node of that text.
\<close>

fun set_contents :: "node list \<Rightarrow> node \<Rightarrow> node" where
  "set_contents new (Element n a cs) = Element n a new"
| "set_contents new (Text t) = Text t"
| "set_contents new (Comment c) = Comment c"

fun insert_first :: "node \<Rightarrow> node \<Rightarrow> node" where
  "insert_first child (Element n a cs) = Element n a (child # cs)"
| "insert_first child (Text t) = Text t"
| "insert_first child (Comment c) = Comment c"

fun append_child :: "node \<Rightarrow> node \<Rightarrow> node" where
  "append_child child (Element n a cs) = Element n a (cs @ [child])"
| "append_child child (Text t) = Text t"
| "append_child child (Comment c) = Comment c"

fun as_child :: "content \<Rightarrow> node" where
  "as_child (Str s) = Text s"
| "as_child (Tag t) = t"

text \<open>
  The style tag of \<^verbatim>\<open>html_diff_render\<close>:
  \<^verbatim>\<open>new_tag("style", type="text/css")\<close> with the two rules as its string.
\<close>

definition css_rules :: string where
  "css_rules =
     ''ins {text-decoration : none; background-color: #d4fcbc;}\<newline>'' @
     ''                        del {text-decoration : none; background-color: #fbb6c2;}''"

definition change_styles :: node where
  "change_styles = Element ''style'' [(''type'', ''text/css'')] [Text css_rules]"

text \<open>
  The middle of \<^verbatim>\<open>html_diff_render\<close>, from the two shielded soups to the tree that is
  serialised: the regions of both, the five diffs, the html tag of the new soup cleared
  and filled with them, a head tag inserted first in html when \<^verbatim>\<open>soup_new.head\<close> finds
  none, and the style tag appended to the head that \<^verbatim>\<open>soup_new.head\<close> finds.
\<close>

definition assemble_diff :: "externals \<Rightarrow> soup \<Rightarrow> soup \<Rightarrow> error + soup" where
  "assemble_diff env soup_old soup_new =
     (case find_meaningful_nodes env soup_old of
        Inl e \<Rightarrow> Inl e
      | Inr old_content \<Rightarrow>
     (case find_meaningful_nodes env soup_new of
        Inl e \<Rightarrow> Inl e
      | Inr new_content \<Rightarrow>
     (case diff_elements env (head old_content) (head new_content) of
        Inl e \<Rightarrow> Inl e
      | Inr head_diff \<Rightarrow>
     (case diff_elements env (body old_content) (body new_content) of
        Inl e \<Rightarrow> Inl e
      | Inr body_diff \<Rightarrow>
     (let diffs =
            [Str (htmldiff env (pre_head old_content) (pre_head new_content)),
             head_diff,
             Str (htmldiff env (pre_body old_content) (pre_body new_content)),
             body_diff,
             Str (htmldiff env (post_body old_content) (post_body new_content))]
      in if find_tag ''html'' soup_new = None then Inl AttributeError
         else
           (let filled = upd_tag ''html'' (set_contents (map as_child diffs)) soup_new;
                with_head =
                  (if \<not> truthy_opt (find_tag ''head'' filled)
                   then upd_tag ''html'' (insert_first (Element ''head'' [] [])) filled
                   else filled)
            in if find_tag ''head'' with_head = None then Inl AttributeError
               else Inr (upd_tag ''head'' (append_child change_styles) with_head)))))))"

text \<open>
  The first steps of \<^verbatim>\<open>html_diff_render\<close> on one input: parse, take the comments out,
  shield script and style under the side's prefix.
\<close>

definition shielded :: "externals \<Rightarrow> string \<Rightarrow> string \<Rightarrow> soup \<times> (string \<rightharpoonup> node)" where
  "shielded env text prefix =
     remove_undiffable_content (strip_comments (parse_html env text)) prefix"

text \<open>
  \<^verbatim>\<open>html_diff_render(a_text, b_text)\<close>. After the tree is put together it is
  serialised and parsed again, the script and style tags are put back from
  \<^verbatim>\<open>replacements_new.update(replacements_old)\<close> (the old side's entries over the new
  side's), and the result is serialised.
\<close>

definition html_diff_render :: "externals \<Rightarrow> string \<Rightarrow> string \<Rightarrow> error + string" where
  "html_diff_render env a_text b_text =
     (case shielded env a_text ''old'' of (soup_old, replacements_old) \<Rightarrow>
      (case shielded env b_text ''new'' of (soup_new, replacements_new) \<Rightarrow>
       (case assemble_diff env soup_old soup_new of
          Inl e \<Rightarrow> Inl e
        | Inr tree \<Rightarrow>
            (case add_undiffable_content (parse_html env (prettify env tree))
                    (replacements_new ++ replacements_old) of
               Inl e \<Rightarrow> Inl e
             | Inr restored \<Rightarrow> Inr (prettify env restored)))))"

section \<open>The specification's wording, as definitions\<close>

text \<open>
  The definitions of this section follow the words of the specification, not the
  code; each is compared with the function of the code it describes.
\<close>

text \<open>
  The text nodes of a tree that are not comments, each with the name of its nearest
  containing element.
\<close>

fun spec_text_nodes :: "string \<Rightarrow> node list \<Rightarrow> (string \<times> string) list" where
  "spec_text_nodes p [] = []"
| "spec_text_nodes p (Text t # ns) = (p, t) # spec_text_nodes p ns"
| "spec_text_nodes p (Comment c # ns) = spec_text_nodes p ns"
| "spec_text_nodes p (Element n a cs # ns) = spec_text_nodes n cs @ spec_text_nodes p ns"

text \<open>
  The visible fragments: the text nodes whose nearest containing element is not style,
  script, the document root, head or title.
\<close>

definition spec_visible_fragments :: "soup \<Rightarrow> string list" where
  "spec_visible_fragments doc =
     map snd (filter (\<lambda>e. fst e \<notin> {''style'', ''script'', ''[document]'', ''head'', ''title''})
       (spec_text_nodes ''[document]'' doc))"

text \<open>
  Collapsing blank lines, in the claim's words. The text is read as lines, each ended
  by a newline; a line is blank or whitespace-only when it holds nothing but
  whitespace. A run of \<open>n\<close> such lines between two lines of text lies in one maximal
  run of whitespace, from the newline that ends the line before it to the newline that
  ends its last line: that run of whitespace holds \<open>n + 1\<close> newlines. A run of two or
  more blank or whitespace-only lines becomes exactly two newlines. The whitespace
  before the first of these newlines ends the line of text before the run, the
  whitespace after the last of them starts the line of text after it, and both stay,
  as does everything else. (Whitespace at the very start or end of the text is removed
  by the trimming that follows, whatever is done to it here.)
\<close>

function spec_collapse_blank_lines :: "string \<Rightarrow> string" where
  "spec_collapse_blank_lines [] = []"
| "spec_collapse_blank_lines (c # cs) =
     (if py_isspace c
      then (if 3 \<le> count_list (takeWhile py_isspace (c # cs)) (CHR 0x0A)
            then takeWhile hspace (c # cs) @ [CHR 0x0A, CHR 0x0A]
                 @ rev (takeWhile hspace (rev (takeWhile py_isspace (c # cs))))
            else takeWhile py_isspace (c # cs))
           @ spec_collapse_blank_lines (dropWhile py_isspace (c # cs))
      else c # spec_collapse_blank_lines cs)"
  by pat_completeness auto
termination
proof (relation "measure length")
  show "wf (measure length)" by simp
next
  fix c :: char and cs :: string
  assume "py_isspace c"
  then have "dropWhile py_isspace (c # cs) = dropWhile py_isspace cs" by simp
  moreover have "length (dropWhile py_isspace cs) \<le> length cs" by (rule length_dropWhile_le)
  ultimately show "(dropWhile py_isspace (c # cs), c # cs) \<in> measure length" by simp
next
  fix c :: char and cs :: string
  show "(cs, c # cs) \<in> measure length" by simp
qed

text \<open>
  Collapsing runs of line ends, the wording that the code is compared with below. The
  text is read as maximal runs of whitespace between other characters. A run that holds
  two or more newlines (one or more blank or whitespace-only lines, with the
  whitespace that ends the line before them and starts the line after them) becomes
  exactly two newlines; every other run, and every other character, stays as it is.
\<close>

function collapse_line_end_runs :: "string \<Rightarrow> string" where
  "collapse_line_end_runs [] = []"
| "collapse_line_end_runs (c # cs) =
     (if py_isspace c
      then (if 2 \<le> count_list (takeWhile py_isspace (c # cs)) (CHR 0x0A)
            then [CHR 0x0A, CHR 0x0A] else takeWhile py_isspace (c # cs))
           @ collapse_line_end_runs (dropWhile py_isspace (c # cs))
      else c # collapse_line_end_runs cs)"
  by pat_completeness auto
termination
proof (relation "measure length")
  show "wf (measure length)" by simp
next
  fix c :: char and cs :: string
  assume "py_isspace c"
  then have "dropWhile py_isspace (c # cs) = dropWhile py_isspace cs" by simp
  moreover have "length (dropWhile py_isspace cs) \<le> length cs" by (rule length_dropWhile_le)
  ultimately show "(dropWhile py_isspace (c # cs), c # cs) \<in> measure length" by simp
next
  fix c :: char and cs :: string
  show "(cs, c # cs) \<in> measure length" by simp
qed

text \<open>
  Splitting the children of the root into regions. The children before the first head
  or body element are the text of \<open>pre_head\<close>. When that first element is the head,
  the children after it and before the first body element are the text of
  \<open>pre_body\<close>, and every child after that body element, whatever its name, is in
  \<open>post_body\<close>. When it is the body, there is no head, and every child after it is in
  \<open>post_body\<close>. The text of a region is the string forms of its children, joined with
  newlines.
\<close>

definition spec_region_text :: "externals \<Rightarrow> node list \<Rightarrow> string" where
  "spec_region_text env ns = join [CHR 0x0A] (map (node_str env) ns)"

definition spec_split_regions :: "externals \<Rightarrow> node list \<Rightarrow> regions" where
  "spec_split_regions env children =
     (case dropWhile (\<lambda>n. \<not> is_named ''head'' n \<and> \<not> is_named ''body'' n) children of
        [] \<Rightarrow>
          \<lparr> pre_head = spec_region_text env children, head = None,
            pre_body = [], body = None, post_body = [] \<rparr>
      | first # following \<Rightarrow>
          if is_named ''head'' first then
            (case dropWhile (\<lambda>n. \<not> is_named ''body'' n) following of
               [] \<Rightarrow>
                 \<lparr> pre_head = spec_region_text env
                     (takeWhile (\<lambda>n. \<not> is_named ''head'' n \<and> \<not> is_named ''body'' n) children),
                   head = Some first,
                   pre_body = spec_region_text env following, body = None, post_body = [] \<rparr>
             | b # after \<Rightarrow>
                 \<lparr> pre_head = spec_region_text env
                     (takeWhile (\<lambda>n. \<not> is_named ''head'' n \<and> \<not> is_named ''body'' n) children),
                   head = Some first,
                   pre_body = spec_region_text env (takeWhile (\<lambda>n. \<not> is_named ''body'' n) following),
                   body = Some b,
                   post_body = spec_region_text env after \<rparr>)
          else
            \<lparr> pre_head = spec_region_text env
                (takeWhile (\<lambda>n. \<not> is_named ''head'' n \<and> \<not> is_named ''body'' n) children),
              head = None, pre_body = [], body = Some first,
              post_body = spec_region_text env following \<rparr>)"

section \<open>Conditions and measures used in the results\<close>

text \<open>
  Two conditions on a document, for the round trip of shielding: no script or style
  element at any depth of a list of nodes, and no script or style element inside
  another script or style element.
\<close>

fun no_undiffable :: "node list \<Rightarrow> bool" where
  "no_undiffable [] = True"
| "no_undiffable (Element n a cs # ns) = (\<not> undiffable n \<and> no_undiffable cs \<and> no_undiffable ns)"
| "no_undiffable (Text t # ns) = no_undiffable ns"
| "no_undiffable (Comment c # ns) = no_undiffable ns"

fun unnested :: "node list \<Rightarrow> bool" where
  "unnested [] = True"
| "unnested (Element n a cs # ns) =
     ((if undiffable n then no_undiffable cs else unnested cs) \<and> unnested ns)"
| "unnested (Text t # ns) = unnested ns"
| "unnested (Comment c # ns) = unnested ns"

text \<open>
  The identifiers carried by the elements that have the wm-diff-replacement attribute
  and lie outside every script and style element (and are not such an element).
\<close>

fun outer_ids :: "node list \<Rightarrow> string list" where
  "outer_ids [] = []"
| "outer_ids (Element n a cs # ns) =
     (if undiffable n then outer_ids ns
      else (case map_of a repl_attr of
              Some rid \<Rightarrow> rid # outer_ids cs @ outer_ids ns
            | None \<Rightarrow> outer_ids cs @ outer_ids ns))"
| "outer_ids (Text t # ns) = outer_ids ns"
| "outer_ids (Comment c # ns) = outer_ids ns"

text \<open>Shielding a document and restoring it from the dictionary the shield returned.\<close>

definition shield_unshield :: "soup \<Rightarrow> string \<Rightarrow> error + soup" where
  "shield_unshield doc prefix =
     (case remove_undiffable_content doc prefix of
        (doc', replacements) \<Rightarrow> add_undiffable_content doc' replacements)"

text \<open>The number of elements of a given name in a list of nodes, at any depth.\<close>

fun count_tag :: "string \<Rightarrow> node list \<Rightarrow> nat" where
  "count_tag nm [] = 0"
| "count_tag nm (Element n a cs # ns) =
     (if n = nm then 1 else 0) + count_tag nm cs + count_tag nm ns"
| "count_tag nm (Text t # ns) = count_tag nm ns"
| "count_tag nm (Comment c # ns) = count_tag nm ns"

section \<open>Stand-ins for the collaborators\<close>

text \<open>
  Concrete collaborators, used only to instantiate the theorems below at concrete
  inputs: a parser that knows three documents (nothing for the empty string, as lxml
  gives; a full page; and a headless fragment wrapped in html and body), a plain
  serialiser, and differs that report a deletion and an insertion.
\<close>

fun demo_markup :: "node \<Rightarrow> string" where
  "demo_markup (Element n a cs) = ''<'' @ n @ ''>'' @ concat (map demo_markup cs) @ ''</'' @ n @ ''>''"
| "demo_markup (Text t) = t"
| "demo_markup (Comment c) = ''<!--'' @ c @ ''-->''"

definition demo_page :: soup where
  "demo_page =
     [Element ''html'' []
        [Element ''head'' [] [Element ''title'' [] [Text ''T'']],
         Element ''body'' []
           [Comment ''note'', Text ''  Hello'', Element ''script'' [] [Text ''js''],
            Element ''p'' [] [Text ''world\<newline> \<newline>\<newline>again  '']]]]"

definition demo_parse :: "string \<Rightarrow> soup" where
  "demo_parse s =
     (if s = [] then []
      else if s = ''page'' then demo_page
      else [Element ''html'' [] [Element ''body'' [] [Element ''p'' [] [Text s]]]])"

definition demo_externals :: externals where
  "demo_externals =
     \<lparr> parse_html = demo_parse,
       markup = demo_markup,
       prettify = (\<lambda>doc. concat (map demo_markup doc)),
       htmldiff = (\<lambda>a b. if a = b then a else ''<del>'' @ a @ ''</del><ins>'' @ b @ ''</ins>''),
       dmp_diff = (\<lambda>a b t. if a = b then [(''='', a)] else [(''-'', a), (''+'', b)]),
       dmp_diff_bytes = (\<lambda>a b t. if a = b then [(''='', a)] else [(''-'', a), (''+'', b)]) \<rparr>"

section \<open>Results\<close>

text \<open>
  C8. identical_bytes is strictly more precise than compare_length: identical bodies
  always have length difference 0, some pair of bodies with length difference 0 is
  not identical, and compare_length is len(b) - len(a) whatever the contents are.
\<close>

theorem identical_bytes_refines_compare_length:
  "(identical_bytes a b \<longrightarrow> compare_length a b = 0)
   \<and> (\<exists>a' b'. compare_length a' b' = 0 \<and> \<not> identical_bytes a' b')
   \<and> compare_length a b = int (length b) - int (length a)
   \<and> (length a = length a2 \<and> length b = length b2 \<longrightarrow> compare_length a b = compare_length a2 b2)"
proof -
  have "compare_length [0] [1] = 0 \<and> \<not> identical_bytes [0] [1::8 word]"
    by (simp add: compare_length_def identical_bytes_def)
  then have "\<exists>a' b'. compare_length a' b' = 0 \<and> \<not> identical_bytes a' b'"
    by blast
  then show ?thesis
    by (simp add: compare_length_def identical_bytes_def)
qed

theorem identical_bytes_refines_compare_length_witness:
  "identical_bytes [7, 8] [7, 8] \<and> compare_length [7, 8] [7, 8] = 0
   \<and> compare_length [1, 2] [3, 4, 5] = compare_length [9, 9] [0, 0, 0]"
  using identical_bytes_refines_compare_length [of "[7, 8]" "[7, 8]"]
    identical_bytes_refines_compare_length [of "[1, 2]" "[3, 4, 5]" "[9, 9]" "[0, 0, 0]"]
  by (simp add: identical_bytes_def)

subsection \<open>The character diff strategies\<close>






lemma translate_changes_not_TypeError: "translate_changes changes \<noteq> Inl TypeError"
  by (induction changes) (auto split: option.splits sum.splits)

text \<open>
  C3. The source diff (html_source_diff, through compute_dmp_diff with any time limit)
  raises TypeError when one input is a str and the other is bytes, in either order; when
  both are str or both are bytes it does not raise TypeError.
\<close>

theorem source_diff_type_error:
  "(((\<exists>x. a = PStr x) \<and> (\<exists>y. b = PBytes y)) \<or> ((\<exists>x. a = PBytes x) \<and> (\<exists>y. b = PStr y))
      \<longrightarrow> html_source_diff env a b = Inl TypeError \<and> compute_dmp_diff env a b t = Inl TypeError)
   \<and> (((\<exists>x. a = PStr x) \<and> (\<exists>y. b = PStr y)) \<or> ((\<exists>x. a = PBytes x) \<and> (\<exists>y. b = PBytes y))
      \<longrightarrow> html_source_diff env a b \<noteq> Inl TypeError \<and> compute_dmp_diff env a b t \<noteq> Inl TypeError)"
  by (auto simp: html_source_diff_def compute_dmp_diff_def translate_changes_not_TypeError)

theorem source_diff_type_error_witness:
  "html_source_diff demo_externals (PStr ''<p>a</p>'') (PBytes [60, 112, 62]) = Inl TypeError
   \<and> compute_dmp_diff demo_externals (PBytes [60, 112, 62]) (PStr ''<p>a</p>'') 4 = Inl TypeError
   \<and> html_source_diff demo_externals (PStr ''<p>a</p>'') (PStr ''<p>b</p>'') \<noteq> Inl TypeError
   \<and> html_source_diff demo_externals (PBytes [60]) (PBytes [62]) \<noteq> Inl TypeError"
  using source_diff_type_error [of "PStr ''<p>a</p>''" "PBytes [60, 112, 62]" demo_externals 4]
    source_diff_type_error [of "PBytes [60, 112, 62]" "PStr ''<p>a</p>''" demo_externals 4]
    source_diff_type_error [of "PStr ''<p>a</p>''" "PStr ''<p>b</p>''" demo_externals 4]
    source_diff_type_error [of "PBytes [60]" "PBytes [62]" demo_externals 4]
  by simp



subsection \<open>Visible text\<close>

lemma all_strings_strip_comments: "all_strings p (strip_comments ns) = spec_text_nodes p ns"
  by (induction p ns rule: spec_text_nodes.induct) auto

lemma re_match_comment_bytes_repr: "\<not> re_match_comment (bytes_repr bs)"
  by (simp add: re_match_comment_def bytes_repr_def Let_def)

lemma is_visible_iff: "is_visible e = (fst e \<notin> set INVISIBLE_TAGS)"
  by (simp add: is_visible_def re_match_comment_bytes_repr)

lemma nl_space: "py_isspace (CHR 0x0A)"
  by (simp add: py_isspace_def)

lemma py_strip_ends:
  assumes "py_strip s \<noteq> []"
  shows "\<not> py_isspace (hd (py_strip s)) \<and> \<not> py_isspace (last (py_strip s))"
proof -
  define t where "t = dropWhile py_isspace s"
  define u where "u = dropWhile py_isspace (rev t)"
  have ps: "py_strip s = rev u"
    by (simp add: py_strip_def t_def u_def)
  with assms have u: "u \<noteq> []" by simp
  then have t: "t \<noteq> []" by (auto simp: u_def)
  have "\<not> py_isspace (hd u)"
    using u unfolding u_def by (rule hd_dropWhile)
  moreover have "\<not> py_isspace (hd t)"
    using t unfolding t_def by (rule hd_dropWhile)
  moreover have "last u = last (rev t)"
  proof -
    have "rev t = takeWhile py_isspace (rev t) @ u"
      by (simp add: u_def)
    then show ?thesis using u by (metis last_appendR)
  qed
  ultimately show ?thesis
    using u t by (simp add: ps hd_rev last_rev)
qed

lemma blank_lines_at_hspace: "hspace c \<Longrightarrow> blank_lines_at (c # cs) = blank_lines_at cs"
  by (simp add: blank_lines_at_def)

lemma blank_lines_at_runs:
  "blank_lines_at s =
     (if 2 \<le> count_list (takeWhile py_isspace s) (CHR 0x0A)
      then Some (dropWhile py_isspace s) else None)"
proof (induction s)
  case Nil
  show ?case by (simp add: blank_lines_at_def)
next
  case (Cons c cs)
  consider (h) "hspace c" | (n) "c = CHR 0x0A" | (o) "\<not> py_isspace c"
    by (auto simp: hspace_def)
  then show ?case
  proof cases
    case h
    then show ?thesis
      using Cons by (simp add: blank_lines_at_hspace) (simp add: hspace_def)
  next
    case n
    have "\<not> hspace c" using n by (simp add: hspace_def)
    then have "blank_lines_at (c # cs) =
        (if CHR 0x0A \<in> set (takeWhile py_isspace cs) then Some (dropWhile py_isspace cs) else None)"
      using n by (simp add: blank_lines_at_def)
    moreover have "(2 \<le> count_list (takeWhile py_isspace (c # cs)) (CHR 0x0A))
        = (CHR 0x0A \<in> set (takeWhile py_isspace cs))"
      using n nl_space count_list_0_iff [of "takeWhile py_isspace cs" "CHR 0x0A"] by auto
    ultimately show ?thesis using n nl_space by simp
  next
    case o
    then have "\<not> hspace c" and "c \<noteq> CHR 0x0A"
      using nl_space by (auto simp: hspace_def)
    then show ?thesis using o by (simp add: blank_lines_at_def)
  qed
qed

lemma collapse_short_run:
  "\<not> 2 \<le> count_list (takeWhile py_isspace s) (CHR 0x0A) \<Longrightarrow>
     collapse_line_end_runs s = takeWhile py_isspace s @ collapse_line_end_runs (dropWhile py_isspace s)"
  by (cases s) auto

lemma sub_blank_lines_collapse: "sub_blank_lines s = collapse_line_end_runs s"
proof (induction s rule: sub_blank_lines.induct)
  case 1
  show ?case by simp
next
  case (2 c cs)
  show ?case
  proof (cases "2 \<le> count_list (takeWhile py_isspace (c # cs)) (CHR 0x0A)")
    case True
    then have b: "blank_lines_at (c # cs) = Some (dropWhile py_isspace (c # cs))"
      by (simp only: blank_lines_at_runs if_True)
    have sp: "py_isspace c"
      using True by (cases "py_isspace c") auto
    show ?thesis
      using "2.IH"(2) [OF b] b True sp by simp
  next
    case False
    then have b: "blank_lines_at (c # cs) = None"
      by (simp only: blank_lines_at_runs if_False)
    have "collapse_line_end_runs (c # cs) = c # collapse_line_end_runs cs"
    proof (cases "py_isspace c")
      case True
      with False have "\<not> 2 \<le> count_list (takeWhile py_isspace cs) (CHR 0x0A)"
        by (auto split: if_splits)
      from collapse_short_run [OF this] True False show ?thesis by simp
    next
      case False
      then show ?thesis by simp
    qed
    then show ?thesis
      using "2.IH"(1) [OF b] b by simp
  qed
qed


text \<open>
  A run is counted by its line ends: one whitespace-only line between two lines of text
  is a run with two line ends, and it is collapsed; one line end alone is kept.
\<close>

lemma sub_blank_lines_examples:
  "sub_blank_lines ''a\<newline> \<newline>b'' = ''a\<newline>\<newline>b''"
  "sub_blank_lines ''a \<newline> b'' = ''a \<newline> b''"
  "sub_blank_lines ''a  \<newline>\<newline>\<newline>  b'' = ''a\<newline>\<newline>b''"
  by (simp_all add: blank_lines_at_def hspace_def py_isspace_def)

lemma py_strip_decomp:
  "\<exists>l r. s = l @ py_strip s @ r \<and> list_all py_isspace l \<and> list_all py_isspace r"
proof -
  define t where "t = dropWhile py_isspace s"
  have s: "s = takeWhile py_isspace s @ t"
    by (simp add: t_def)
  have "rev (takeWhile py_isspace (rev t) @ dropWhile py_isspace (rev t)) = rev (rev t)"
    by (simp only: takeWhile_dropWhile_id)
  then have "rev (dropWhile py_isspace (rev t)) @ rev (takeWhile py_isspace (rev t)) = t"
    by (simp only: rev_append rev_rev_ident)
  then have t: "t = py_strip s @ rev (takeWhile py_isspace (rev t))"
    by (simp only: py_strip_def t_def)
  have l: "list_all py_isspace (takeWhile py_isspace s)"
    by (simp add: list_all_iff) (meson set_takeWhileD)
  have r: "list_all py_isspace (rev (takeWhile py_isspace (rev t)))"
    by (simp add: list_all_iff) (meson set_takeWhileD)
  from s t have "s = takeWhile py_isspace s @ py_strip s @ rev (takeWhile py_isspace (rev t))"
    by simp
  with l r show ?thesis by blast
qed

lemma visible_fragments_spec:
  "map snd (filter is_visible (get_text env html)) = spec_visible_fragments (parse_html env html)"
proof -
  have "is_visible = (\<lambda>e. fst e \<notin> {''style'', ''script'', ''[document]'', ''head'', ''title''})"
    by (rule ext) (simp add: is_visible_iff INVISIBLE_TAGS_def)
  then show ?thesis
    by (simp add: get_text_def spec_visible_fragments_def all_strings_strip_comments)
qed

text \<open>
  C7, as stated, fails in two ways. Where one whitespace-only line stands between two
  lines of text, that is a run of one such line, which the claim leaves alone; the
  regular expression (two groups: the end of the first line, then the whitespace-only
  line) replaces it by two newlines. And where two blank lines are collapsed, the
  regular expression also takes the spaces that end the line before them and start the
  line after them, which are no part of a blank line. In both documents below the one
  visible fragment is the text given as the input.
\<close>

theorem get_visible_text_counterexample:
  "py_strip (spec_collapse_blank_lines (join '' ''
        (spec_visible_fragments (parse_html demo_externals ''a\<newline> \<newline>b''))))
       = ''a\<newline> \<newline>b''
   \<and> get_visible_text demo_externals ''a\<newline> \<newline>b'' = ''a\<newline>\<newline>b''
   \<and> get_visible_text demo_externals ''a\<newline> \<newline>b''
       \<noteq> py_strip (spec_collapse_blank_lines (join '' ''
           (spec_visible_fragments (parse_html demo_externals ''a\<newline> \<newline>b''))))
   \<and> py_strip (spec_collapse_blank_lines (join '' ''
        (spec_visible_fragments (parse_html demo_externals ''a  \<newline>\<newline>\<newline>  b''))))
       = ''a  \<newline>\<newline>  b''
   \<and> get_visible_text demo_externals ''a  \<newline>\<newline>\<newline>  b'' = ''a\<newline>\<newline>b''"
proof -
  have frags: "spec_visible_fragments (parse_html demo_externals ''a\<newline> \<newline>b'')
      = [''a\<newline> \<newline>b'']"
    "spec_visible_fragments (parse_html demo_externals ''a  \<newline>\<newline>\<newline>  b'')
      = [''a  \<newline>\<newline>\<newline>  b'']"
    by (simp_all add: spec_visible_fragments_def demo_externals_def demo_parse_def)
  have worded: "py_strip (spec_collapse_blank_lines (join '' '' [''a\<newline> \<newline>b'']))
      = ''a\<newline> \<newline>b''"
    "py_strip (spec_collapse_blank_lines (join '' '' [''a  \<newline>\<newline>\<newline>  b'']))
      = ''a  \<newline>\<newline>  b''"
    by (simp_all add: py_strip_def py_isspace_def hspace_def)
  have texts: "map snd (filter is_visible (get_text demo_externals ''a\<newline> \<newline>b''))
      = [''a\<newline> \<newline>b'']"
    "map snd (filter is_visible (get_text demo_externals ''a  \<newline>\<newline>\<newline>  b''))
      = [''a  \<newline>\<newline>\<newline>  b'']"
    by (simp_all add: get_text_def demo_externals_def demo_parse_def is_visible_iff
        INVISIBLE_TAGS_def)
  have code: "get_visible_text demo_externals ''a\<newline> \<newline>b'' = ''a\<newline>\<newline>b''"
    "get_visible_text demo_externals ''a  \<newline>\<newline>\<newline>  b'' = ''a\<newline>\<newline>b''"
    unfolding get_visible_text_def texts
    by (simp_all add: blank_lines_at_def hspace_def py_isspace_def py_strip_def)
  show ?thesis
    unfolding frags worded code by simp
qed

text \<open>
  C7, amended. get_visible_text returns the visible fragments (the text nodes of the
  parsed document that are not comments and whose nearest containing element is not
  style, script, the document root, head or title) joined with single spaces, with
  every maximal run of whitespace that holds two or more newlines (one or more blank or
  whitespace-only lines, together with the whitespace that ends the line before them
  and starts the line after them) replaced by exactly two newlines, and with the
  whitespace at both ends removed: what is removed at the ends is whitespace only, and
  a result that is not empty neither starts nor ends with whitespace.
\<close>

theorem get_visible_text_spec:
  "get_visible_text env html =
     py_strip (collapse_line_end_runs (join '' '' (spec_visible_fragments (parse_html env html))))
   \<and> (\<exists>l r. collapse_line_end_runs (join '' '' (spec_visible_fragments (parse_html env html)))
          = l @ get_visible_text env html @ r
        \<and> list_all py_isspace l \<and> list_all py_isspace r)
   \<and> (get_visible_text env html \<noteq> [] \<longrightarrow>
        \<not> py_isspace (hd (get_visible_text env html))
        \<and> \<not> py_isspace (last (get_visible_text env html)))"
proof -
  have eq: "get_visible_text env html =
     py_strip (collapse_line_end_runs (join '' '' (spec_visible_fragments (parse_html env html))))"
    by (simp add: get_visible_text_def visible_fragments_spec sub_blank_lines_collapse)
  show ?thesis
    unfolding eq using py_strip_decomp py_strip_ends by blast
qed

theorem get_visible_text_spec_witness:
  "get_visible_text demo_externals ''page'' = ''Hello world\<newline>\<newline>again''
   \<and> get_visible_text demo_externals ''page'' \<noteq> []
   \<and> \<not> py_isspace (hd (get_visible_text demo_externals ''page''))
   \<and> \<not> py_isspace (last (get_visible_text demo_externals ''page''))"
proof -
  have frags: "spec_visible_fragments (parse_html demo_externals ''page'')
      = [''  Hello'', ''world\<newline> \<newline>\<newline>again  '']"
    by (simp add: spec_visible_fragments_def demo_externals_def demo_parse_def demo_page_def)
  have collapsed: "collapse_line_end_runs ''  Hello world\<newline> \<newline>\<newline>again  ''
      = ''  Hello world\<newline>\<newline>again  ''"
    by (simp add: py_isspace_def)
  have stripped: "py_strip ''  Hello world\<newline>\<newline>again  '' = ''Hello world\<newline>\<newline>again''"
    by (simp add: py_strip_def py_isspace_def)
  have joined: "join '' '' [''  Hello'', ''world\<newline> \<newline>\<newline>again  '']
      = ''  Hello world\<newline> \<newline>\<newline>again  ''"
    by simp
  have "get_visible_text demo_externals ''page'' =
     py_strip (collapse_line_end_runs (join '' ''
       (spec_visible_fragments (parse_html demo_externals ''page''))))"
    using get_visible_text_spec [of demo_externals "''page''"] by (rule conjunct1)
  then have "get_visible_text demo_externals ''page'' = ''Hello world\<newline>\<newline>again''"
    by (simp only: frags joined collapsed stripped)
  then show ?thesis
    by (simp add: py_isspace_def)
qed

subsection \<open>The regions of a document\<close>

lemma is_named_truthy: "is_named nm x \<Longrightarrow> truthy x"
  by (cases x) auto

lemma classify_after_body:
  "truthy x \<Longrightarrow> classify env ns (ph, h, pb, Some x, po) = (ph, h, pb, Some x, po @ map (node_str env) ns)"
  by (induction ns arbitrary: po) auto

lemma classify_after_head:
  "truthy y \<Longrightarrow> classify env ns (ph, Some y, pb, None, po) =
     (case dropWhile (\<lambda>n. \<not> is_named ''body'' n) ns of
        [] \<Rightarrow> (ph, Some y, pb @ map (node_str env) ns, None, po)
      | b # after \<Rightarrow>
          (ph, Some y, pb @ map (node_str env) (takeWhile (\<lambda>n. \<not> is_named ''body'' n) ns),
           Some b, po @ map (node_str env) after))"
proof (induction ns arbitrary: pb)
  case Nil
  show ?case by simp
next
  case (Cons n ns)
  show ?case
  proof (cases "is_named ''body'' n")
    case True
    then show ?thesis
      using Cons.prems classify_after_body [OF is_named_truthy [OF True]] by simp
  next
    case False
    then show ?thesis
      using Cons.prems Cons.IH [OF Cons.prems, of "pb @ [node_str env n]"]
      by (cases "dropWhile (\<lambda>n. \<not> is_named ''body'' n) ns")
        (simp_all del: dropWhile_eq_Nil_conv)
  qed
qed

lemma classify_start:
  "classify env ns (ph, None, [], None, []) =
     (case dropWhile (\<lambda>n. \<not> is_named ''head'' n \<and> \<not> is_named ''body'' n) ns of
        [] \<Rightarrow> (ph @ map (node_str env) ns, None, [], None, [])
      | first # following \<Rightarrow>
          if is_named ''head'' first then
            (case dropWhile (\<lambda>n. \<not> is_named ''body'' n) following of
               [] \<Rightarrow>
                 (ph @ map (node_str env)
                    (takeWhile (\<lambda>n. \<not> is_named ''head'' n \<and> \<not> is_named ''body'' n) ns),
                  Some first, map (node_str env) following, None, [])
             | b # after \<Rightarrow>
                 (ph @ map (node_str env)
                    (takeWhile (\<lambda>n. \<not> is_named ''head'' n \<and> \<not> is_named ''body'' n) ns),
                  Some first,
                  map (node_str env) (takeWhile (\<lambda>n. \<not> is_named ''body'' n) following),
                  Some b, map (node_str env) after))
          else
            (ph @ map (node_str env)
               (takeWhile (\<lambda>n. \<not> is_named ''head'' n \<and> \<not> is_named ''body'' n) ns),
             None, [], Some first, map (node_str env) following))"
proof (induction ns arbitrary: ph)
  case Nil
  show ?case by simp
next
  case (Cons n ns)
  consider (h) "is_named ''head'' n" | (b) "\<not> is_named ''head'' n" "is_named ''body'' n"
    | (o) "\<not> is_named ''head'' n" "\<not> is_named ''body'' n"
    by blast
  then show ?case
  proof cases
    case h
    then show ?thesis
      using classify_after_head [OF is_named_truthy [OF h], of env ns ph "[]" "[]"]
      by (cases "dropWhile (\<lambda>n. \<not> is_named ''body'' n) ns")
        (simp_all del: dropWhile_eq_Nil_conv)
  next
    case b
    then show ?thesis
      using classify_after_body [OF is_named_truthy [OF b(2)], of env ns ph None "[]" "[]"]
      by simp
  next
    case o
    then show ?thesis
      using Cons.IH [of "ph @ [node_str env n]"]
      by (cases "dropWhile (\<lambda>n. \<not> is_named ''head'' n \<and> \<not> is_named ''body'' n) ns")
        (simp_all del: dropWhile_eq_Nil_conv split: list.splits)
  qed
qed

lemma find_tag_named: "find_tag nm ns = Some e \<Longrightarrow> is_named nm e"
  by (induction nm ns rule: find_tag.induct) (auto split: if_splits option.splits)

lemma regions_of_classify:
  "regions_of (classify env children ([], None, [], None, [])) = spec_split_regions env children"
proof (cases "dropWhile (\<lambda>n. \<not> is_named ''head'' n \<and> \<not> is_named ''body'' n) children")
  case Nil
  then show ?thesis
    by (simp only: classify_start spec_split_regions_def spec_region_text_def list.case
        regions_of.simps append_Nil join.simps)
next
  case (Cons first following)
  show ?thesis
  proof (cases "is_named ''head'' first")
    case False
    then show ?thesis
      by (simp only: classify_start spec_split_regions_def spec_region_text_def Cons list.case
          regions_of.simps append_Nil join.simps if_False)
  next
    case True
    then show ?thesis
      by (cases "dropWhile (\<lambda>n. \<not> is_named ''body'' n) following")
        (simp_all only: classify_start spec_split_regions_def spec_region_text_def Cons list.case
          regions_of.simps append_Nil join.simps if_True)
  qed
qed

text \<open>
  C4. find_meaningful_nodes classifies the children of the html element in order: those
  before the first head or body element go to pre_head; once the head is found, the
  children up to the first body element go to pre_body; once the body is found, every
  later child goes to post_body whatever its name (and with no head before the body,
  everything after the body goes to post_body). The text of a region is the string
  forms of its children joined with newlines, a string node's form being its own text.
\<close>

theorem find_meaningful_nodes_spec:
  "(find_tag ''html'' doc = Some (Element n a children) \<longrightarrow>
      find_meaningful_nodes env doc = Inr (spec_split_regions env children))
   \<and> node_str env (Text t) = t \<and> node_str env (Comment c) = c"
  by (simp add: regions_of_classify)

theorem find_meaningful_nodes_spec_witness:
  "find_meaningful_nodes demo_externals
     [Element ''html'' []
        [Text ''a'', Text ''b'', Element ''head'' [] [], Text ''c'', Element ''head'' [] [],
         Element ''body'' [] [], Element ''head'' [] [], Text ''d'']]
   = Inr \<lparr> pre_head = ''a\<newline>b'', head = Some (Element ''head'' [] []),
           pre_body = ''c\<newline><head></head>'', body = Some (Element ''body'' [] []),
           post_body = ''<head></head>\<newline>d'' \<rparr>"
proof -
  have "spec_split_regions demo_externals
      [Text ''a'', Text ''b'', Element ''head'' [] [], Text ''c'', Element ''head'' [] [],
       Element ''body'' [] [], Element ''head'' [] [], Text ''d'']
    = \<lparr> pre_head = ''a\<newline>b'', head = Some (Element ''head'' [] []),
        pre_body = ''c\<newline><head></head>'', body = Some (Element ''body'' [] []),
        post_body = ''<head></head>\<newline>d'' \<rparr>"
    by (simp add: spec_split_regions_def spec_region_text_def demo_externals_def)
  moreover have "find_tag ''html''
      [Element ''html'' []
        [Text ''a'', Text ''b'', Element ''head'' [] [], Text ''c'', Element ''head'' [] [],
         Element ''body'' [] [], Element ''head'' [] [], Text ''d'']]
    = Some (Element ''html'' []
        [Text ''a'', Text ''b'', Element ''head'' [] [], Text ''c'', Element ''head'' [] [],
         Element ''body'' [] [], Element ''head'' [] [], Text ''d''])"
    by simp
  ultimately show ?thesis
    using find_meaningful_nodes_spec [of
        "[Element ''html'' []
          [Text ''a'', Text ''b'', Element ''head'' [] [], Text ''c'', Element ''head'' [] [],
           Element ''body'' [] [], Element ''head'' [] [], Text ''d'']]"
        "''html''" "[]"
        "[Text ''a'', Text ''b'', Element ''head'' [] [], Text ''c'', Element ''head'' [] [],
          Element ''body'' [] [], Element ''head'' [] [], Text ''d'']" demo_externals]
    by (simp only:)
qed

subsection \<open>Diffing a pair of elements\<close>

text \<open>
  C5. diff_elements returns the empty string, without calling the differ, when either
  input is absent (None). An element that is present but empty is not absent: two
  present elements are always diffed, and the result is a tag with the name and the
  attributes of the new element whose whole content is the one string the structural
  differ returned for the markup of the old and of the new element.
\<close>

theorem diff_elements_spec:
  "(old = None \<or> new = None \<longrightarrow> diff_elements env old new = Inr (Str []))
   \<and> diff_elements env (Some (Element old_name old_attrs [])) (Some (Element new_name new_attrs []))
       = Inr (Tag (Element new_name new_attrs
           [Text (htmldiff env (markup env (Element old_name old_attrs []))
                               (markup env (Element new_name new_attrs [])))]))
   \<and> diff_elements env (Some (Element old_name old_attrs old_children))
         (Some (Element new_name new_attrs new_children))
       = Inr (Tag (Element new_name new_attrs
           [Text (htmldiff env (markup env (Element old_name old_attrs old_children))
                               (markup env (Element new_name new_attrs new_children)))]))"
proof -
  have "diff_elements env old new = Inr (Str [])" if "old = None \<or> new = None"
    using that by (cases old) auto
  then show ?thesis by simp
qed

theorem diff_elements_spec_witness:
  "diff_elements demo_externals None (Some (Element ''head'' [] [])) = Inr (Str [])
   \<and> diff_elements demo_externals (Some (Element ''head'' [] [])) None = Inr (Str [])
   \<and> diff_elements demo_externals (Some (Element ''head'' [] []))
        (Some (Element ''head'' [(''lang'', ''en'')] []))
       = Inr (Tag (Element ''head'' [(''lang'', ''en'')] [Text ''<head></head>'']))
   \<and> diff_elements demo_externals (Some (Element ''body'' [] [Text ''a'']))
        (Some (Element ''body'' [(''id'', ''b'')] [Text ''b'']))
       = Inr (Tag (Element ''body'' [(''id'', ''b'')]
           [Text ''<del><body>a</body></del><ins><body>b</body></ins>'']))"
  using diff_elements_spec [of None "Some (Element ''head'' [] [])" demo_externals
      "''head''" "[]" "''head''" "[(''lang'', ''en'')]" "[]" "[]"]
    diff_elements_spec [of "Some (Element ''head'' [] [])" None demo_externals
      "''body''" "[]" "''body''" "[(''id'', ''b'')]" "[Text ''a'']" "[Text ''b'']"]
  by (simp add: demo_externals_def)

subsection \<open>Shielding and restoring\<close>

lemma str_nat_not_Nil: "str_nat n \<noteq> []"
  by (subst str_nat.simps) simp

lemma digit_inj: "a < 10 \<Longrightarrow> b < 10 \<Longrightarrow> ''0123456789'' ! a = ''0123456789'' ! b \<Longrightarrow> a = b"
proof -
  assume a: "a < 10" and b: "b < 10" and e: "''0123456789'' ! a = ''0123456789'' ! b"
  have d: "distinct ''0123456789''" by simp
  have "length ''0123456789'' = 10" by simp
  with a b e d show ?thesis
    by (metis nth_eq_iff_index_eq)
qed

lemma str_nat_inj: "str_nat m = str_nat n \<Longrightarrow> m = n"
proof (induction m arbitrary: n rule: str_nat.induct)
  case (1 m)
  show ?case
  proof (cases "m < 10")
    case True
    note m = this
    show ?thesis
    proof (cases "n < 10")
      case True
      with m "1.prems" show ?thesis
        by (simp add: str_nat.simps [of m] str_nat.simps [of n] digit_inj)
    next
      case False
      with m "1.prems" str_nat_not_Nil [of "n div 10"] show ?thesis
        by (simp add: str_nat.simps [of m] str_nat.simps [of n])
    qed
  next
    case False
    note m = this
    show ?thesis
    proof (cases "n < 10")
      case True
      with m "1.prems" str_nat_not_Nil [of "m div 10"] show ?thesis
        by (simp add: str_nat.simps [of m] str_nat.simps [of n])
    next
      case False
      with m "1.prems" have e: "str_nat (m div 10) = str_nat (n div 10)"
        and d: "''0123456789'' ! (m mod 10) = ''0123456789'' ! (n mod 10)"
        by (simp_all add: str_nat.simps [of m] str_nat.simps [of n])
      from "1.IH" [OF m e] have q: "m div 10 = n div 10" .
      from d have r: "m mod 10 = n mod 10"
        by (intro digit_inj) simp_all
      from q r show ?thesis
        by (metis div_mult_mod_eq)
    qed
  qed
qed

lemma replacement_id_inj: "replacement_id p i = replacement_id p j \<Longrightarrow> i = j"
  by (simp add: replacement_id_def str_nat_inj)

lemma shield_nodes_no_undiffable:
  "no_undiffable ns \<Longrightarrow> shield_nodes p i ns = (ns, [], i)"
  by (induction ns arbitrary: i rule: no_undiffable.induct) auto

lemma upt_split: "i \<le> j \<Longrightarrow> j \<le> k \<Longrightarrow> [i..<k] = [i..<j] @ [j..<k]"
  using upt_add_eq_append [of i j "k - j"] by simp

lemma shield_nodes_index:
  "shield_nodes p i ns = (ns', es, k) \<Longrightarrow> i \<le> k \<and> map fst es = map (replacement_id p) [i..<k]"
proof (induction p i ns arbitrary: ns' es k rule: shield_nodes.induct)
  case (1 prefix index)
  then show ?case by simp
next
  case (2 prefix index n a cs ns)
  show ?case
  proof (cases "undiffable n")
    case True
    obtain cs' inner j where c: "shield_nodes prefix (Suc index) cs = (cs', inner, j)"
      by (cases "shield_nodes prefix (Suc index) cs") auto
    obtain ns2 later k2 where l: "shield_nodes prefix j ns = (ns2, later, k2)"
      by (cases "shield_nodes prefix j ns") auto
    from "2.IH"(1) [OF True c] have i1: "Suc index \<le> j"
      and m1: "map fst inner = map (replacement_id prefix) [Suc index..<j]" by simp_all
    from "2.IH"(2) [OF True c [symmetric] refl l] have i2: "j \<le> k2"
      and m2: "map fst later = map (replacement_id prefix) [j..<k2]" by simp_all
    from "2.prems" True c l have k: "k = k2"
      and es: "es = (replacement_id prefix index, Element n a cs') # inner @ later"
      by simp_all
    have "[index..<k2] = index # [Suc index..<j] @ [j..<k2]"
      using i1 i2 upt_split [of "Suc index" j k2] by (simp add: upt_conv_Cons)
    then show ?thesis
      using i1 i2 m1 m2 k es by simp
  next
    case False
    obtain cs' inner j where c: "shield_nodes prefix index cs = (cs', inner, j)"
      by (cases "shield_nodes prefix index cs") auto
    obtain ns2 later k2 where l: "shield_nodes prefix j ns = (ns2, later, k2)"
      by (cases "shield_nodes prefix j ns") auto
    from "2.IH"(3) [OF False c] have i1: "index \<le> j"
      and m1: "map fst inner = map (replacement_id prefix) [index..<j]" by simp_all
    from "2.IH"(4) [OF False c [symmetric] refl l] have i2: "j \<le> k2"
      and m2: "map fst later = map (replacement_id prefix) [j..<k2]" by simp_all
    from "2.prems" False c l have k: "k = k2" and es: "es = inner @ later"
      by simp_all
    have "[index..<k2] = [index..<j] @ [j..<k2]"
      using i1 i2 by (rule upt_split)
    then show ?thesis
      using i1 i2 m1 m2 k es by simp
  qed
next
  case (3 prefix index t ns)
  then show ?case by (auto split: prod.splits)
next
  case (4 prefix index c ns)
  then show ?case by (auto split: prod.splits)
qed


lemma outer_ids_Element:
  "outer_ids (Element n a cs # ns) = [] \<Longrightarrow>
     outer_ids ns = [] \<and> (\<not> undiffable n \<longrightarrow> map_of a repl_attr = None \<and> outer_ids cs = [])"
  by (simp split: if_splits option.splits)

lemma select_ids_placeholder: "select_ids (placeholder n rid # ns) = rid # select_ids ns"
  by (simp add: placeholder_def)

lemma shield_select_ids:
  "shield_nodes p i ns = (ns', es, k) \<Longrightarrow> outer_ids ns = [] \<Longrightarrow> unnested ns \<Longrightarrow>
     select_ids ns' = map fst es"
proof (induction p i ns arbitrary: ns' es k rule: shield_nodes.induct)
  case (1 prefix index)
  then show ?case by simp
next
  case (2 prefix index n a cs ns)
  from outer_ids_Element [OF "2.prems"(2)] have sn: "outer_ids ns = []"
    and nu: "\<not> undiffable n \<longrightarrow> map_of a repl_attr = None \<and> outer_ids cs = []"
    by simp_all
  from "2.prems"(3) have un: "unnested ns" by simp
  show ?case
  proof (cases "undiffable n")
    case True
    with "2.prems"(3) have "no_undiffable cs" by simp
    then have c: "shield_nodes prefix (Suc index) cs = (cs, [], Suc index)"
      by (rule shield_nodes_no_undiffable)
    obtain ns2 later k2 where l: "shield_nodes prefix (Suc index) ns = (ns2, later, k2)"
      by (cases "shield_nodes prefix (Suc index) ns") auto
    from "2.IH"(2) [OF True c [symmetric] refl l sn un]
    have "select_ids ns2 = map fst later" .
    moreover from "2.prems"(1) True c l
    have "ns' = placeholder n (replacement_id prefix index) # ns2"
      and "es = (replacement_id prefix index, Element n a cs) # later"
      by simp_all
    ultimately show ?thesis
      by (simp add: select_ids_placeholder)
  next
    case False
    with "2.prems"(3) have uc: "unnested cs" by simp
    from nu False have na: "map_of a repl_attr = None" and sc: "outer_ids cs = []"
      by simp_all
    obtain cs' inner j where c: "shield_nodes prefix index cs = (cs', inner, j)"
      by (cases "shield_nodes prefix index cs") auto
    obtain ns2 later k2 where l: "shield_nodes prefix j ns = (ns2, later, k2)"
      by (cases "shield_nodes prefix j ns") auto
    from "2.IH"(3) [OF False c sc uc] have "select_ids cs' = map fst inner" .
    moreover from "2.IH"(4) [OF False c [symmetric] refl l sn un]
    have "select_ids ns2 = map fst later" .
    moreover from "2.prems"(1) False c l
    have "ns' = Element n a cs' # ns2" and "es = inner @ later"
      by simp_all
    ultimately show ?thesis
      using na by simp
  qed
next
  case (3 prefix index t ns)
  then show ?case by (auto split: prod.splits)
next
  case (4 prefix index c ns)
  then show ?case by (auto split: prod.splits)
qed

lemma restore_placeholder:
  assumes "replacements rid = Some (Element n a cs)"
    and "rid \<notin> set (select_ids ns @ after)"
    and "restore_nodes replacements after ns = Inr ns'"
  shows "restore_nodes replacements after (placeholder n' rid # ns) = Inr (Element n a cs # ns')"
  using assms by (simp add: placeholder_def)

lemma shield_restore:
  "shield_nodes p i ns = (ns', es, k) \<Longrightarrow> outer_ids ns = [] \<Longrightarrow> unnested ns \<Longrightarrow>
   (\<And>e. e \<in> set es \<Longrightarrow> replacements (fst e) = Some (snd e)) \<Longrightarrow>
   (\<And>j. i \<le> j \<Longrightarrow> j < k \<Longrightarrow> replacement_id p j \<notin> set after) \<Longrightarrow>
     restore_nodes replacements after ns' = Inr ns"
proof (induction p i ns arbitrary: ns' es k after rule: shield_nodes.induct)
  case (1 prefix index)
  then show ?case by simp
next
  case (2 prefix index n a cs ns)
  from outer_ids_Element [OF "2.prems"(2)] have sn: "outer_ids ns = []"
    and nu: "\<not> undiffable n \<longrightarrow> map_of a repl_attr = None \<and> outer_ids cs = []"
    by simp_all
  from "2.prems"(3) have un: "unnested ns" by simp
  show ?case
  proof (cases "undiffable n")
    case True
    with "2.prems"(3) have "no_undiffable cs" by simp
    then have c: "shield_nodes prefix (Suc index) cs = (cs, [], Suc index)"
      by (rule shield_nodes_no_undiffable)
    obtain ns2 later k2 where l: "shield_nodes prefix (Suc index) ns = (ns2, later, k2)"
      by (cases "shield_nodes prefix (Suc index) ns") auto
    from "2.prems"(1) True c l
    have r: "ns' = placeholder n (replacement_id prefix index) # ns2"
      and es: "es = (replacement_id prefix index, Element n a cs) # later" and k: "k = k2"
      by simp_all
    from shield_nodes_index [OF l] have le: "Suc index \<le> k2"
      and keys: "map fst later = map (replacement_id prefix) [Suc index..<k2]" by simp_all
    have rest: "restore_nodes replacements after ns2 = Inr ns"
    proof (rule "2.IH"(2) [OF True c [symmetric] refl l sn un])
      fix e assume "e \<in> set later"
      then show "replacements (fst e) = Some (snd e)"
        using "2.prems"(4) [of e] es by simp
    next
      fix j assume "Suc index \<le> j" and "j < k2"
      then show "replacement_id prefix j \<notin> set after"
        using "2.prems"(5) [of j] k by simp
    qed
    have stored: "replacements (replacement_id prefix index) = Some (Element n a cs)"
      using "2.prems"(4) [of "(replacement_id prefix index, Element n a cs)"] es by simp
    have "replacement_id prefix index \<notin> set (select_ids ns2)"
    proof
      assume "replacement_id prefix index \<in> set (select_ids ns2)"
      then have "replacement_id prefix index \<in> replacement_id prefix ` {Suc index..<k2}"
        using shield_select_ids [OF l sn un] keys by simp
      then obtain j where "Suc index \<le> j" and "replacement_id prefix index = replacement_id prefix j"
        by auto
      then show False using replacement_id_inj by fastforce
    qed
    moreover have "replacement_id prefix index \<notin> set after"
      using "2.prems"(5) [of index] le k by simp
    ultimately have "replacement_id prefix index \<notin> set (select_ids ns2 @ after)"
      by simp
    from restore_placeholder [OF stored this rest] show ?thesis
      unfolding r .
  next
    case False
    with "2.prems"(3) have uc: "unnested cs" by simp
    from nu False have na: "map_of a repl_attr = None" and sc: "outer_ids cs = []"
      by simp_all
    obtain cs' inner j where c: "shield_nodes prefix index cs = (cs', inner, j)"
      by (cases "shield_nodes prefix index cs") auto
    obtain ns2 later k2 where l: "shield_nodes prefix j ns = (ns2, later, k2)"
      by (cases "shield_nodes prefix j ns") auto
    from "2.prems"(1) False c l
    have r: "ns' = Element n a cs' # ns2" and es: "es = inner @ later" and k: "k = k2"
      by simp_all
    from shield_nodes_index [OF c] have le1: "index \<le> j" by simp
    from shield_nodes_index [OF l] have le2: "j \<le> k2"
      and keys: "map fst later = map (replacement_id prefix) [j..<k2]" by simp_all
    have rest: "restore_nodes replacements after ns2 = Inr ns"
    proof (rule "2.IH"(4) [OF False c [symmetric] refl l sn un])
      fix e assume "e \<in> set later"
      then show "replacements (fst e) = Some (snd e)"
        using "2.prems"(4) [of e] es by simp
    next
      fix j' assume "j \<le> j'" and "j' < k2"
      then show "replacement_id prefix j' \<notin> set after"
        using "2.prems"(5) [of j'] k le1 by simp
    qed
    have inner: "restore_nodes replacements (select_ids ns2 @ after) cs' = Inr cs"
    proof (rule "2.IH"(3) [OF False c sc uc])
      fix e assume "e \<in> set inner"
      then show "replacements (fst e) = Some (snd e)"
        using "2.prems"(4) [of e] es by simp
    next
      fix j' assume a: "index \<le> j'" and b: "j' < j"
      have "replacement_id prefix j' \<notin> set (select_ids ns2)"
      proof
        assume "replacement_id prefix j' \<in> set (select_ids ns2)"
        then have "replacement_id prefix j' \<in> replacement_id prefix ` {j..<k2}"
          using shield_select_ids [OF l sn un] keys by simp
        then obtain j'' where "j \<le> j''" and "replacement_id prefix j' = replacement_id prefix j''"
          by auto
        then show False using replacement_id_inj b by fastforce
      qed
      moreover have "replacement_id prefix j' \<notin> set after"
        using "2.prems"(5) [of j'] a b le2 k by simp
      ultimately show "replacement_id prefix j' \<notin> set (select_ids ns2 @ after)"
        by simp
    qed
    show ?thesis
      unfolding r using na inner rest by simp
  qed
next
  case (3 prefix index t ns)
  obtain ns2 later k2 where l: "shield_nodes prefix index ns = (ns2, later, k2)"
    by (cases "shield_nodes prefix index ns") auto
  from "3.prems"(1) l have r: "ns' = Text t # ns2" and es: "es = later" and k: "k = k2"
    by simp_all
  have "restore_nodes replacements after ns2 = Inr ns"
    using "3.IH" [OF l] "3.prems"(2-5) es k by simp
  then show ?case unfolding r by simp
next
  case (4 prefix index c ns)
  obtain ns2 later k2 where l: "shield_nodes prefix index ns = (ns2, later, k2)"
    by (cases "shield_nodes prefix index ns") auto
  from "4.prems"(1) l have r: "ns' = Comment c # ns2" and es: "es = later" and k: "k = k2"
    by simp_all
  have "restore_nodes replacements after ns2 = Inr ns"
    using "4.IH" [OF l] "4.prems"(2-5) es k by simp
  then show ?case unfolding r by simp
qed

lemma dict_of_distinct:
  "distinct (map fst es) \<Longrightarrow> e \<in> set es \<Longrightarrow> dict_of es (fst e) = Some (snd e)"
proof -
  assume d: "distinct (map fst es)" and e: "e \<in> set es"
  have "distinct (map fst (rev es))" using d by (simp add: rev_map [symmetric])
  moreover have "(fst e, snd e) \<in> set (rev es)" using e by simp
  ultimately show ?thesis
    unfolding dict_of_def by (rule map_of_is_SomeI)
qed

lemma shield_keys_distinct:
  "shield_nodes p i ns = (ns', es, k) \<Longrightarrow> distinct (map fst es)"
proof -
  assume "shield_nodes p i ns = (ns', es, k)"
  then have "map fst es = map (replacement_id p) [i..<k]"
    using shield_nodes_index by blast
  moreover have "inj_on (replacement_id p) (set [i..<k])"
    by (rule inj_onI) (rule replacement_id_inj)
  ultimately show ?thesis
    by (simp add: distinct_map)
qed

lemma str_nat_digits: "str_nat 0 = ''0''" "str_nat (Suc 0) = ''1''"
  by (subst str_nat.simps, simp)+

lemma restore_nodes_error: "restore_nodes replacements after ns = Inl e \<Longrightarrow> e = KeyError"
  by (induction replacements after ns rule: restore_nodes.induct)
    (auto split: option.splits sum.splits if_splits)

lemma restore_nodes_missing_id:
  "rid \<in> set (select_ids ns) \<Longrightarrow> replacements rid = None \<Longrightarrow>
     restore_nodes replacements after ns = Inl KeyError"
proof (induction replacements after ns rule: restore_nodes.induct)
  case (1 replacements after)
  then show ?case by simp
next
  case (2 replacements after n a cs ns)
  show ?case
  proof (cases "restore_nodes replacements after (Element n a cs # ns)")
    case (Inl e)
    then show ?thesis using restore_nodes_error by blast
  next
    case (Inr res)
    have False
    proof (cases "map_of a repl_attr")
      case None
      with Inr obtain cs' ns' where c: "restore_nodes replacements (select_ids ns @ after) cs = Inr cs'"
        and n: "restore_nodes replacements after ns = Inr ns'"
        by (auto split: sum.splits)
      from "2.prems"(1) None consider "rid \<in> set (select_ids cs)" | "rid \<in> set (select_ids ns)"
        by auto
      then show False
      proof cases
        case 1
        from "2.IH"(1) [OF None 1 "2.prems"(2)] c show False by simp
      next
        case 2
        from "2.IH"(2) [OF None c 2 "2.prems"(2)] n show False by simp
      qed
    next
      case (Some k)
      with Inr obtain r where r: "replacements k = Some r"
        by (auto split: option.splits)
      from "2.prems"(1) Some consider "rid = k" | "rid \<in> set (select_ids cs)"
        | "rid \<in> set (select_ids ns)"
        by auto
      then show False
      proof cases
        case 1
        with r "2.prems"(2) show False by simp
      next
        case 2
        show False
        proof (cases "truthy r")
          case True
          with Inr Some r 2 "2.prems"(2) show False
            by (auto split: sum.splits if_splits)
        next
          case False
          with Inr Some r obtain cs' where
            c: "restore_nodes replacements (select_ids ns @ after) cs = Inr cs'"
            by (auto split: sum.splits)
          from "2.IH"(4) [OF Some r False 2 "2.prems"(2)] c show False by simp
        qed
      next
        case 3
        show False
        proof (cases "truthy r")
          case True
          with Inr Some r obtain ns' where
            nn: "\<not> (\<exists>rid' \<in> set (select_ids cs). replacements rid' = None)"
            and n: "restore_nodes replacements after ns = Inr ns'"
            by (auto split: sum.splits if_splits)
          from "2.IH"(3) [OF Some r True nn 3 "2.prems"(2)] n show False by simp
        next
          case False
          with Inr Some r obtain cs' ns' where
            c: "restore_nodes replacements (select_ids ns @ after) cs = Inr cs'"
            and n: "restore_nodes replacements after ns = Inr ns'"
            by (auto split: sum.splits)
          from "2.IH"(5) [OF Some r False c 3 "2.prems"(2)] n show False by simp
        qed
      qed
    qed
    then show ?thesis ..
  qed
next
  case (3 replacements after t ns)
  then show ?case by simp
next
  case (4 replacements after c ns)
  then show ?case by simp
qed

text \<open>
  C1. The claim: in add_undiffable_content, an element that carries the
  wm-diff-replacement attribute with an identifier the table does not hold is left in
  place, and nothing is raised. The code indexes the dictionary with the identifier
  before it tests the replacement, so an absent identifier raises KeyError (for any
  document and table, by the lemma above); here, on a paragraph that carries the
  attribute and the empty table.
\<close>

theorem add_undiffable_content_absent_id:
  "add_undiffable_content
     [Element ''html'' []
        [Element ''body'' [] [Element ''p'' [(''wm-diff-replacement'', ''x'')] [Text ''kept'']]]]
     Map.empty
   = Inl KeyError"
  by (simp add: add_undiffable_content_def repl_attr_def)

text \<open>
  C2, as stated, fails on two kinds of document. A style element inside a script
  element is replaced inside the stored script, so the restored script holds the
  placeholder of the style. An element that carries the attribute before shielding is
  selected by the restore step, whose lookup raises.
\<close>

theorem shield_unshield_counterexample:
  "shield_unshield [Element ''script'' [] [Element ''style'' [] [Text ''x'']]] ''new''
     = Inr [Element ''script'' []
         [Element ''style'' [(''wm-diff-replacement'', ''new-1'')] [Text ''$[new-1]$'']]]
   \<and> shield_unshield [Element ''script'' [] [Element ''style'' [] [Text ''x'']]] ''new''
     \<noteq> Inr [Element ''script'' [] [Element ''style'' [] [Text ''x'']]]
   \<and> shield_unshield
       [Element ''p'' [(''wm-diff-replacement'', ''x'')] [], Element ''script'' [] []] ''new''
     = Inl KeyError"
  by (simp add: shield_unshield_def remove_undiffable_content_def add_undiffable_content_def
      undiffable_def placeholder_def replacement_id_def str_nat_digits dict_of_def repl_attr_def)

text \<open>
  C2, amended. For every document in which no element outside the script and style
  elements carries the wm-diff-replacement attribute and no script or style element
  lies inside another script or style element, shielding it (under any prefix) and
  restoring it from the table the shield returned gives back the document itself:
  every shielded element stands where it stood with its tag, attributes and content,
  and no placeholder is left.
\<close>

theorem shield_unshield_round_trip:
  "outer_ids doc = [] \<Longrightarrow> unnested doc \<Longrightarrow> shield_unshield doc prefix = Inr doc"
proof -
  assume s: "outer_ids doc = []" and u: "unnested doc"
  obtain doc' es k where sh: "shield_nodes prefix 0 doc = (doc', es, k)"
    by (cases "shield_nodes prefix 0 doc") auto
  have "restore_nodes (dict_of es) [] doc' = Inr doc"
  proof (rule shield_restore [OF sh s u])
    fix e assume "e \<in> set es"
    then show "dict_of es (fst e) = Some (snd e)"
      using dict_of_distinct [OF shield_keys_distinct [OF sh]] by blast
  next
    fix j show "replacement_id prefix j \<notin> set []" by simp
  qed
  then show ?thesis
    by (simp add: shield_unshield_def remove_undiffable_content_def add_undiffable_content_def sh)
qed

theorem shield_unshield_round_trip_witness:
  "outer_ids
     [Element ''html'' []
        [Element ''head'' [] [Element ''style'' [] [Text ''s'']],
         Element ''body'' [] [Element ''script'' [(''wm-diff-replacement'', ''mine'')] [], Text ''t'']]] = []
   \<and> unnested
     [Element ''html'' []
        [Element ''head'' [] [Element ''style'' [] [Text ''s'']],
         Element ''body'' [] [Element ''script'' [(''wm-diff-replacement'', ''mine'')] [], Text ''t'']]]
   \<and> fst (remove_undiffable_content
     [Element ''html'' []
        [Element ''head'' [] [Element ''style'' [] [Text ''s'']],
         Element ''body'' [] [Element ''script'' [(''wm-diff-replacement'', ''mine'')] [], Text ''t'']]] ''old'')
     = [Element ''html'' []
        [Element ''head'' []
           [Element ''style'' [(''wm-diff-replacement'', ''old-0'')] [Text ''$[old-0]$'']],
         Element ''body'' []
           [Element ''script'' [(''wm-diff-replacement'', ''old-1'')] [Text ''$[old-1]$''],
            Text ''t'']]]
   \<and> shield_unshield
     [Element ''html'' []
        [Element ''head'' [] [Element ''style'' [] [Text ''s'']],
         Element ''body'' [] [Element ''script'' [(''wm-diff-replacement'', ''mine'')] [], Text ''t'']]] ''old''
     = Inr [Element ''html'' []
        [Element ''head'' [] [Element ''style'' [] [Text ''s'']],
         Element ''body'' [] [Element ''script'' [(''wm-diff-replacement'', ''mine'')] [], Text ''t'']]]"
proof -
  have s: "outer_ids
     [Element ''html'' []
        [Element ''head'' [] [Element ''style'' [] [Text ''s'']],
         Element ''body'' [] [Element ''script'' [(''wm-diff-replacement'', ''mine'')] [], Text ''t'']]] = []"
    by (simp add: repl_attr_def undiffable_def)
  have u: "unnested
     [Element ''html'' []
        [Element ''head'' [] [Element ''style'' [] [Text ''s'']],
         Element ''body'' [] [Element ''script'' [(''wm-diff-replacement'', ''mine'')] [], Text ''t'']]]"
    by (simp add: undiffable_def)
  have f: "fst (remove_undiffable_content
     [Element ''html'' []
        [Element ''head'' [] [Element ''style'' [] [Text ''s'']],
         Element ''body'' [] [Element ''script'' [(''wm-diff-replacement'', ''mine'')] [], Text ''t'']]] ''old'')
     = [Element ''html'' []
        [Element ''head'' []
           [Element ''style'' [(''wm-diff-replacement'', ''old-0'')] [Text ''$[old-0]$'']],
         Element ''body'' []
           [Element ''script'' [(''wm-diff-replacement'', ''old-1'')] [Text ''$[old-1]$''],
            Text ''t'']]]"
    by (simp add: remove_undiffable_content_def undiffable_def placeholder_def
        replacement_id_def str_nat_digits repl_attr_def)
  from s u f shield_unshield_round_trip [OF s u, of "''old''"] show ?thesis
    by (simp only: simp_thms)
qed

subsection \<open>The rendered diff of a document without an html element\<close>

lemma find_tag_strip_comments:
  "find_tag nm ns = None \<Longrightarrow> find_tag nm (strip_comments ns) = None"
  by (induction ns rule: strip_comments.induct) (auto split: if_splits option.splits)

lemma find_tag_shield_nodes:
  "find_tag nm ns = None \<Longrightarrow> shield_nodes p i ns = (ns', es, k) \<Longrightarrow> find_tag nm ns' = None"
proof (induction p i ns arbitrary: ns' es k rule: shield_nodes.induct)
  case (1 prefix index)
  then show ?case by simp
next
  case (2 prefix index n a cs ns)
  from "2.prems"(1) have nn: "n \<noteq> nm" and fc: "find_tag nm cs = None" and fn: "find_tag nm ns = None"
    by (auto split: if_splits option.splits)
  show ?case
  proof (cases "undiffable n")
    case True
    obtain cs' inner j where c: "shield_nodes prefix (Suc index) cs = (cs', inner, j)"
      by (cases "shield_nodes prefix (Suc index) cs") auto
    obtain ns2 later k2 where l: "shield_nodes prefix j ns = (ns2, later, k2)"
      by (cases "shield_nodes prefix j ns") auto
    from "2.IH"(2) [OF True c [symmetric] refl fn l] have "find_tag nm ns2 = None" .
    moreover from "2.prems"(2) True c l
    have "ns' = placeholder n (replacement_id prefix index) # ns2" by simp
    ultimately show ?thesis using nn by (simp add: placeholder_def)
  next
    case False
    obtain cs' inner j where c: "shield_nodes prefix index cs = (cs', inner, j)"
      by (cases "shield_nodes prefix index cs") auto
    obtain ns2 later k2 where l: "shield_nodes prefix j ns = (ns2, later, k2)"
      by (cases "shield_nodes prefix j ns") auto
    from "2.IH"(3) [OF False fc c] have "find_tag nm cs' = None" .
    moreover from "2.IH"(4) [OF False c [symmetric] refl fn l] have "find_tag nm ns2 = None" .
    moreover from "2.prems"(2) False c l have "ns' = Element n a cs' # ns2" by simp
    ultimately show ?thesis using nn by simp
  qed
next
  case (3 prefix index t ns)
  then show ?case by (auto split: prod.splits)
next
  case (4 prefix index c ns)
  then show ?case by (auto split: prod.splits)
qed

lemma find_tag_shielded:
  "find_tag nm (parse_html env text) = None \<Longrightarrow> find_tag nm (fst (shielded env text p)) = None"
proof -
  assume a: "find_tag nm (parse_html env text) = None"
  obtain ns' es k where s: "shield_nodes p 0 (strip_comments (parse_html env text)) = (ns', es, k)"
    by (cases "shield_nodes p 0 (strip_comments (parse_html env text))") auto
  from find_tag_shield_nodes [OF find_tag_strip_comments [OF a] s] s show ?thesis
    by (simp add: shielded_def remove_undiffable_content_def)
qed

lemma find_tag_Element: "find_tag nm ns = Some e \<Longrightarrow> \<exists>a cs. e = Element nm a cs"
  by (induction nm ns rule: find_tag.induct) (auto split: if_splits option.splits)

lemma find_meaningful_nodes_None:
  "find_tag ''html'' doc = None \<Longrightarrow> find_meaningful_nodes env doc = Inl AttributeError"
  by simp

lemma find_meaningful_nodes_Some:
  "find_tag ''html'' doc \<noteq> None \<Longrightarrow> \<exists>r. find_meaningful_nodes env doc = Inr r"
  using find_tag_Element [of "''html''" doc] by (cases "find_tag ''html'' doc") auto

lemma assemble_diff_no_html:
  assumes "find_tag ''html'' soup_old = None \<or> find_tag ''html'' soup_new = None"
  shows "assemble_diff env soup_old soup_new = Inl AttributeError"
proof (cases "find_tag ''html'' soup_old")
  case None
  then show ?thesis
    unfolding assemble_diff_def by (simp only: find_meaningful_nodes_None sum.case)
next
  case (Some h)
  with assms have n: "find_tag ''html'' soup_new = None" by simp
  from Some have "find_tag ''html'' soup_old \<noteq> None" by simp
  from find_meaningful_nodes_Some [OF this] obtain r where
    "find_meaningful_nodes env soup_old = Inr r" by blast
  then show ?thesis
    unfolding assemble_diff_def by (simp only: find_meaningful_nodes_None [OF n] sum.case)
qed

text \<open>
  C10. html_diff_render takes for granted that each input parses into a tree with an html
  element. When the tree of either input has none, reading the children of soup.html
  raises AttributeError and no document is returned. The empty string is such an input
  whenever the parser yields the empty tree for it, as lxml does.
\<close>

theorem html_diff_render_no_html:
  "(find_tag ''html'' (parse_html env a_text) = None \<or> find_tag ''html'' (parse_html env b_text) = None
      \<longrightarrow> html_diff_render env a_text b_text = Inl AttributeError)
   \<and> (parse_html env [] = [] \<longrightarrow>
        html_diff_render env [] b_text = Inl AttributeError
        \<and> html_diff_render env a_text [] = Inl AttributeError)"
proof -
  have main: "html_diff_render env a b = Inl AttributeError"
    if "find_tag ''html'' (parse_html env a) = None \<or> find_tag ''html'' (parse_html env b) = None"
    for a b
  proof -
    from that have "find_tag ''html'' (fst (shielded env a ''old'')) = None
        \<or> find_tag ''html'' (fst (shielded env b ''new'')) = None"
      using find_tag_shielded [of "''html''" env a "''old''"]
        find_tag_shielded [of "''html''" env b "''new''"] by auto
    from assemble_diff_no_html [OF this, of env] show ?thesis
      by (cases "shielded env a ''old''"; cases "shielded env b ''new''")
        (simp add: html_diff_render_def)
  qed
  have "html_diff_render env [] b_text = Inl AttributeError
        \<and> html_diff_render env a_text [] = Inl AttributeError" if "parse_html env [] = []"
    using that main [of "[]" b_text] main [of a_text "[]"] by simp
  with main show ?thesis by blast
qed

theorem html_diff_render_no_html_witness:
  "parse_html demo_externals [] = []
   \<and> html_diff_render demo_externals [] ''page'' = Inl AttributeError
   \<and> html_diff_render demo_externals ''page'' [] = Inl AttributeError"
proof -
  have p: "parse_html demo_externals [] = []"
    by (simp add: demo_externals_def demo_parse_def)
  from p html_diff_render_no_html [of demo_externals "''page''" "''page''"] show ?thesis
    by simp
qed

subsection \<open>The head and the style of the rendered diff\<close>

lemma find_tag_None_count: "find_tag nm ns = None \<longleftrightarrow> count_tag nm ns = 0"
  by (induction nm ns rule: find_tag.induct) (auto split: option.splits)

lemma count_tag_Cons: "count_tag nm (x # xs) = count_tag nm [x] + count_tag nm xs"
  by (cases x) simp_all

lemma find_tag_upd_tag:
  "(\<And>a cs. \<exists>a' cs'. f (Element nm a cs) = Element nm a' cs') \<Longrightarrow>
     find_tag nm (upd_tag nm f ns) = map_option f (find_tag nm ns)"
proof (induction nm f ns rule: upd_tag.induct)
  case (1 nm f)
  show ?case by simp
next
  case (2 nm f n a cs ns)
  show ?case
  proof (cases "n = nm")
    case True
    from "2.prems" [of a cs] obtain a' cs' where "f (Element nm a cs) = Element nm a' cs'" by blast
    with True show ?thesis by simp
  next
    case False
    note n = this
    show ?thesis
    proof (cases "find_tag nm cs")
      case None
      with n "2.IH"(2) [OF n _ "2.prems"] show ?thesis by simp
    next
      case (Some e)
      then have ne: "find_tag nm cs \<noteq> None" by simp
      from "2.IH"(1) [OF n ne "2.prems"] Some n show ?thesis by simp
    qed
  qed
next
  case (3 nm f t ns)
  then show ?case by simp
next
  case (4 nm f c ns)
  then show ?case by simp
qed

lemma count_tag_upd_tag:
  "find_tag nm' ns = Some e \<Longrightarrow>
     count_tag nm (upd_tag nm' f ns) + count_tag nm [e] = count_tag nm ns + count_tag nm [f e]"
proof (induction nm' f ns rule: upd_tag.induct)
  case (1 nm' f)
  then show ?case by simp
next
  case (2 nm' f n a cs ns)
  show ?case
  proof (cases "n = nm'")
    case True
    with "2.prems" have e: "e = Element n a cs" by simp
    show ?thesis
      using True e count_tag_Cons [of nm "f (Element n a cs)" ns] by simp
  next
    case False
    note n = this
    show ?thesis
    proof (cases "find_tag nm' cs")
      case None
      with n "2.prems" have "find_tag nm' ns = Some e" by simp
      from "2.IH"(2) [OF n _ this] None n show ?thesis by simp
    next
      case (Some e')
      with n "2.prems" have e: "find_tag nm' cs = Some e" by simp
      then have ne: "find_tag nm' cs \<noteq> None" by simp
      from "2.IH"(1) [OF n ne e] n ne show ?thesis by simp
    qed
  qed
next
  case (3 nm' f t ns)
  then show ?case by simp
next
  case (4 nm' f c ns)
  then show ?case by simp
qed

lemma classify_named:
  "classify env ns st = (ph', h', pb', b', po') \<Longrightarrow> st = (ph, h, pb, b, po) \<Longrightarrow>
   (\<And>x. h = Some x \<Longrightarrow> is_named ''head'' x) \<Longrightarrow> (\<And>x. b = Some x \<Longrightarrow> is_named ''body'' x) \<Longrightarrow>
     (\<forall>x. h' = Some x \<longrightarrow> is_named ''head'' x) \<and> (\<forall>x. b' = Some x \<longrightarrow> is_named ''body'' x)"
proof (induction ns arbitrary: ph h pb b po st)
  case Nil
  then show ?case by auto
next
  case (Cons n ns)
  let ?st = "(if \<not> truthy_opt h \<and> \<not> truthy_opt b then
          (if is_named ''head'' n then (ph, Some n, pb, b, po)
           else if is_named ''body'' n then (ph, h, pb, Some n, po)
           else (ph @ [node_str env n], h, pb, b, po))
        else if \<not> truthy_opt b then
          (if is_named ''body'' n then (ph, h, pb, Some n, po)
           else (ph, h, pb @ [node_str env n], b, po))
        else (ph, h, pb, b, po @ [node_str env n]))"
  from Cons.prems(1,2) have c: "classify env ns ?st = (ph', h', pb', b', po')" by simp
  obtain ph2 h2 pb2 b2 po2 where st: "?st = (ph2, h2, pb2, b2, po2)"
    by (cases ?st) auto
  have h2: "is_named ''head'' x" if "h2 = Some x" for x
    using that st Cons.prems(3) by (auto split: if_splits)
  have b2: "is_named ''body'' x" if "b2 = Some x" for x
    using that st Cons.prems(4) by (auto split: if_splits)
  from Cons.IH [OF c st h2 b2] show ?case by blast
qed

lemma regions_named:
  assumes "find_meaningful_nodes env doc = Inr r"
  shows "(\<forall>x. head r = Some x \<longrightarrow> is_named ''head'' x) \<and> (\<forall>x. body r = Some x \<longrightarrow> is_named ''body'' x)"
proof -
  from assms obtain n a cs where r: "r = regions_of (classify env cs ([], None, [], None, []))"
    by (auto split: option.splits node.splits)
  obtain ph h pb b po where c: "classify env cs ([], None, [], None, []) = (ph, h, pb, b, po)"
    by (cases "classify env cs ([], None, [], None, [])") auto
  from classify_named [OF c refl] have "(\<forall>x. h = Some x \<longrightarrow> is_named ''head'' x) \<and> (\<forall>x. b = Some x \<longrightarrow> is_named ''body'' x)"
    by simp
  then show ?thesis by (simp add: r c)
qed

lemma diff_elements_named:
  assumes "\<And>x. old = Some x \<Longrightarrow> is_named nm x" and "\<And>x. new = Some x \<Longrightarrow> is_named nm x"
  shows "\<exists>d. diff_elements env old new = Inr d
     \<and> (as_child d = Text [] \<or> (\<exists>a t. as_child d = Element nm a [Text t]))
     \<and> (old = None \<or> new = None \<longrightarrow> as_child d = Text [])"
proof (cases old)
  case None
  then show ?thesis by simp
next
  case (Some x)
  note old = this
  show ?thesis
  proof (cases new)
    case None
    with old show ?thesis by simp
  next
    case (Some y)
    from assms(1) [OF old] obtain a cs where x: "x = Element nm a cs" by (cases x) auto
    from assms(2) [OF Some] obtain a' cs' where y: "y = Element nm a' cs'" by (cases y) auto
    show ?thesis using old Some x y by simp
  qed
qed

lemma count_tag_append: "count_tag nm (xs @ ys) = count_tag nm xs + count_tag nm ys"
  by (induction nm xs rule: count_tag.induct) simp_all

lemma truthy_opt_find_tag: "truthy_opt (find_tag nm ns) \<longleftrightarrow> find_tag nm ns \<noteq> None"
proof (cases "find_tag nm ns")
  case None
  then show ?thesis by simp
next
  case (Some e)
  with find_tag_Element [OF Some] show ?thesis by auto
qed

lemma find_tag_inserted:
  "find_tag nm ns = None \<Longrightarrow> find_tag nm' ns \<noteq> None \<Longrightarrow> nm \<noteq> nm' \<Longrightarrow>
     find_tag nm (upd_tag nm' (insert_first (Element nm a [])) ns) = Some (Element nm a [])"
proof (induction nm' "insert_first (Element nm a [])" ns rule: upd_tag.induct)
  case (1 nm')
  then show ?case by simp
next
  case (2 nm' n a' cs ns)
  from "2.prems"(1) have nn: "n \<noteq> nm" and fc: "find_tag nm cs = None" and fn: "find_tag nm ns = None"
    by (auto split: if_splits option.splits)
  show ?case
  proof (cases "n = nm'")
    case True
    with "2.prems"(3) show ?thesis by simp
  next
    case False
    note n = this
    show ?thesis
    proof (cases "find_tag nm' cs")
      case None
      with n "2.prems"(2) have "find_tag nm' ns \<noteq> None" by simp
      from "2.hyps"(2) [OF n _ fn this "2.prems"(3)] None n nn fc show ?thesis by simp
    next
      case (Some e)
      then have ne: "find_tag nm' cs \<noteq> None" by simp
      from "2.hyps"(1) [OF n ne fc ne "2.prems"(3)] n nn ne show ?thesis by simp
    qed
  qed
next
  case (3 nm' t ns)
  then show ?case by simp
next
  case (4 nm' c ns)
  then show ?case by simp
qed

lemma classify_head_member:
  "classify env ns (ph, h, pb, b, po) = (ph', h', pb', b', po') \<Longrightarrow> h' = Some x \<Longrightarrow>
     h = Some x \<or> x \<in> set ns"
proof (induction ns arbitrary: ph h pb b po)
  case Nil
  then show ?case by simp
next
  case (Cons n ns)
  let ?st = "(if \<not> truthy_opt h \<and> \<not> truthy_opt b then
          (if is_named ''head'' n then (ph, Some n, pb, b, po)
           else if is_named ''body'' n then (ph, h, pb, Some n, po)
           else (ph @ [node_str env n], h, pb, b, po))
        else if \<not> truthy_opt b then
          (if is_named ''body'' n then (ph, h, pb, Some n, po)
           else (ph, h, pb @ [node_str env n], b, po))
        else (ph, h, pb, b, po @ [node_str env n]))"
  from Cons.prems(1) have c: "classify env ns ?st = (ph', h', pb', b', po')" by simp
  obtain ph2 h2 pb2 b2 po2 where st: "?st = (ph2, h2, pb2, b2, po2)"
    by (cases ?st) auto
  from Cons.IH [OF c [unfolded st] Cons.prems(2)] have "h2 = Some x \<or> x \<in> set ns" .
  moreover have "h2 = h \<or> h2 = Some n"
    using st by (auto split: if_splits)
  ultimately show ?case by auto
qed

lemma count_tag_member:
  "x \<in> set ns \<Longrightarrow> is_named nm x \<Longrightarrow> 1 \<le> count_tag nm ns"
proof (induction ns)
  case Nil
  then show ?case by simp
next
  case (Cons n ns)
  show ?case
  proof (cases "x = n")
    case True
    with Cons.prems(2) obtain a cs where "n = Element nm a cs" by (cases n) auto
    then show ?thesis by simp
  next
    case False
    with Cons have "1 \<le> count_tag nm ns" by simp
    then show ?thesis using count_tag_Cons [of nm n ns] by simp
  qed
qed

lemma head_region_member:
  assumes "find_tag ''html'' doc = Some (Element n a cs)"
    and "find_meaningful_nodes env doc = Inr r" and "head r = Some x"
  shows "x \<in> set cs"
proof -
  obtain ph h pb b po where c: "classify env cs ([], None, [], None, []) = (ph, h, pb, b, po)"
    by (cases "classify env cs ([], None, [], None, [])") auto
  from assms(1,2) c have "head r = h" by auto
  with assms(3) classify_head_member [OF c, of x] show ?thesis by simp
qed

text \<open>
  The tree that html_diff_render serialises, when the trees of both inputs hold an html
  element: its first head element ends with the injected style element, and it has
  exactly one head element when the new tree has none outside its html element. This
  is a fact about the middle of the function. What the document returned holds is
  decided by what the parser makes of the serialised tree, and is not derived here.
\<close>

lemma assemble_diff_head:
  assumes ho: "find_tag ''html'' soup_old \<noteq> None" and hn: "find_tag ''html'' soup_new \<noteq> None"
  shows "\<exists>tree attrs children.
      assemble_diff env soup_old soup_new = Inr tree
    \<and> find_tag ''head'' tree = Some (Element ''head'' attrs (children @ [change_styles]))
    \<and> (count_tag ''head'' (upd_tag ''html'' (set_contents []) soup_new) = 0 \<longrightarrow>
         count_tag ''head'' tree = 1)
    \<and> (find_tag ''head'' soup_new = None \<longrightarrow>
         attrs = [] \<and> children = [] \<and> count_tag ''head'' tree = 1)"
proof -
  from hn obtain e where e: "find_tag ''html'' soup_new = Some e" by auto
  from find_tag_Element [OF e] obtain ha hcs where e_def: "e = Element ''html'' ha hcs" by blast
  from find_meaningful_nodes_Some [OF ho] obtain oc where
    oc: "find_meaningful_nodes env soup_old = Inr oc" by blast
  from find_meaningful_nodes_Some [OF hn] obtain nc where
    nc: "find_meaningful_nodes env soup_new = Inr nc" by blast
  from regions_named [OF oc] have oh: "\<And>x. head oc = Some x \<Longrightarrow> is_named ''head'' x"
    and ob: "\<And>x. body oc = Some x \<Longrightarrow> is_named ''body'' x" by auto
  from regions_named [OF nc] have nh: "\<And>x. head nc = Some x \<Longrightarrow> is_named ''head'' x"
    and nb: "\<And>x. body nc = Some x \<Longrightarrow> is_named ''body'' x" by auto
  have "\<exists>d. diff_elements env (head oc) (head nc) = Inr d
     \<and> (as_child d = Text [] \<or> (\<exists>a t. as_child d = Element ''head'' a [Text t]))
     \<and> (head oc = None \<or> head nc = None \<longrightarrow> as_child d = Text [])"
    using oh nh by (intro diff_elements_named) auto
  then obtain dh where dh: "diff_elements env (head oc) (head nc) = Inr dh"
    and dh_shape: "as_child dh = Text [] \<or> (\<exists>a t. as_child dh = Element ''head'' a [Text t])"
    and dh_none: "head oc = None \<or> head nc = None \<longrightarrow> as_child dh = Text []"
    by (elim exE conjE)
  have "\<exists>d. diff_elements env (body oc) (body nc) = Inr d
     \<and> (as_child d = Text [] \<or> (\<exists>a t. as_child d = Element ''body'' a [Text t]))
     \<and> (body oc = None \<or> body nc = None \<longrightarrow> as_child d = Text [])"
    using ob nb by (intro diff_elements_named) auto
  then obtain db where db: "diff_elements env (body oc) (body nc) = Inr db"
    and db_shape: "as_child db = Text [] \<or> (\<exists>a t. as_child db = Element ''body'' a [Text t])"
    by (elim exE conjE)
  define C where "C =
    [Text (htmldiff env (pre_head oc) (pre_head nc)), as_child dh,
     Text (htmldiff env (pre_body oc) (pre_body nc)), as_child db,
     Text (htmldiff env (post_body oc) (post_body nc))]"
  define filled where "filled = upd_tag ''html'' (set_contents C) soup_new"
  define with_head where "with_head =
    (if find_tag ''head'' filled = None
     then upd_tag ''html'' (insert_first (Element ''head'' [] [])) filled else filled)"
  define tree where "tree = upd_tag ''head'' (append_child change_styles) with_head"
  define base where "base = upd_tag ''html'' (set_contents []) soup_new"
  have asm: "assemble_diff env soup_old soup_new =
      (if find_tag ''head'' with_head = None then Inl AttributeError else Inr tree)"
    by (simp add: assemble_diff_def oc nc dh db Let_def truthy_opt_find_tag e
        C_def filled_def with_head_def tree_def del: find_meaningful_nodes.simps)
  have cC: "count_tag ''head'' C = count_tag ''head'' [as_child dh]"
    using db_shape
      count_tag_Cons [of "''head''" "as_child dh"
        "[Text (htmldiff env (pre_body oc) (pre_body nc)), as_child db,
          Text (htmldiff env (post_body oc) (post_body nc))]"]
    by (auto simp: C_def)
  have c_filled: "count_tag ''head'' filled + count_tag ''head'' hcs
      = count_tag ''head'' soup_new + count_tag ''head'' C"
    using count_tag_upd_tag [OF e, of "''head''" "set_contents C"]
    by (simp add: filled_def e_def)
  have c_base: "count_tag ''head'' base + count_tag ''head'' hcs = count_tag ''head'' soup_new"
    using count_tag_upd_tag [OF e, of "''head''" "set_contents []"]
    by (simp add: base_def e_def)
  from c_filled c_base have c_fb: "count_tag ''head'' filled
      = count_tag ''head'' base + count_tag ''head'' C"
    by simp
  have html_filled: "find_tag ''html'' filled = Some (Element ''html'' ha C)"
    unfolding filled_def
    by (subst find_tag_upd_tag) (simp_all add: e e_def)
  have style0: "count_tag ''head'' [change_styles] = 0"
    by (simp add: change_styles_def)
  have tree_of: "find_tag ''head'' tree = Some (Element ''head'' a0 (cs0 @ [change_styles]))
      \<and> count_tag ''head'' tree = count_tag ''head'' with_head"
    if h0: "find_tag ''head'' with_head = Some (Element ''head'' a0 cs0)" for a0 cs0
  proof -
    have "find_tag ''head'' tree = map_option (append_child change_styles) (find_tag ''head'' with_head)"
      unfolding tree_def by (rule find_tag_upd_tag) simp
    then have 1: "find_tag ''head'' tree = Some (Element ''head'' a0 (cs0 @ [change_styles]))"
      by (simp add: h0)
    from count_tag_upd_tag [OF h0, of "''head''" "append_child change_styles"]
    have "count_tag ''head'' tree = count_tag ''head'' with_head"
      by (simp add: tree_def count_tag_append style0)
    with 1 show ?thesis by simp
  qed
  have headless_base: "count_tag ''head'' base = 0 \<and> count_tag ''head'' hcs = 0"
    if "find_tag ''head'' soup_new = None"
    using that c_base by (simp add: find_tag_None_count)
  show ?thesis
  proof (cases "find_tag ''head'' filled")
    case None
    then have f0: "count_tag ''head'' filled = 0"
      by (simp add: find_tag_None_count)
    have wh: "with_head = upd_tag ''html'' (insert_first (Element ''head'' [] [])) filled"
      by (simp add: with_head_def None)
    have h0: "find_tag ''head'' with_head = Some (Element ''head'' [] [])"
      unfolding wh by (rule find_tag_inserted) (simp_all add: None html_filled)
    from count_tag_upd_tag [OF html_filled, of "''head''" "insert_first (Element ''head'' [] [])"]
    have c1: "count_tag ''head'' with_head = 1"
      by (simp add: wh f0)
    from tree_of [OF h0] c1 have
      t: "find_tag ''head'' tree = Some (Element ''head'' [] ([] @ [change_styles]))"
      and ct: "count_tag ''head'' tree = 1" by simp_all
    from asm h0 have "assemble_diff env soup_old soup_new = Inr tree" by simp
    with t ct show ?thesis
      by (rule_tac x = tree in exI, rule_tac x = "[]" in exI, rule_tac x = "[]" in exI) simp
  next
    case (Some h)
    from find_tag_Element [OF Some] obtain a0 cs0 where h: "h = Element ''head'' a0 cs0" by blast
    have wh: "with_head = filled"
      by (simp add: with_head_def Some)
    have h0: "find_tag ''head'' with_head = Some (Element ''head'' a0 cs0)"
      by (simp add: wh Some h)
    from tree_of [OF h0] have
      t: "find_tag ''head'' tree = Some (Element ''head'' a0 (cs0 @ [change_styles]))"
      and ct: "count_tag ''head'' tree = count_tag ''head'' filled" by (simp_all add: wh)
    from Some have fpos: "count_tag ''head'' filled \<noteq> 0"
      using find_tag_None_count [of "''head''" filled] by simp
    have cC1: "count_tag ''head'' C \<le> 1"
      using dh_shape by (auto simp: cC)
    have one: "count_tag ''head'' tree = 1" if "count_tag ''head'' base = 0"
      using that c_fb fpos cC1 ct by simp
    have not_headless: "find_tag ''head'' soup_new \<noteq> None"
    proof
      assume hl: "find_tag ''head'' soup_new = None"
      from headless_base [OF hl] have b0: "count_tag ''head'' base = 0"
        and hc0: "count_tag ''head'' hcs = 0" by simp_all
      from c_fb b0 fpos have "count_tag ''head'' C \<noteq> 0" by simp
      with cC dh_shape obtain a t where "as_child dh = Element ''head'' a [Text t]"
        by auto
      with dh_none obtain x where x: "head nc = Some x" by (cases "head nc") auto
      from head_region_member [OF e [unfolded e_def] nc x] have "x \<in> set hcs" .
      from count_tag_member [OF this nh [OF x]] hc0 show False by simp
    qed
    from asm h0 have "assemble_diff env soup_old soup_new = Inr tree" by simp
    with t one not_headless show ?thesis
      unfolding base_def
      by (rule_tac x = tree in exI, rule_tac x = a0 in exI, rule_tac x = cs0 in exI) auto
  qed
qed

end
